theory Spec2Isabelle
  imports Main "HOL-Library.AList" "HOL-Library.Sublist"
begin

section \<open>JavaScript values\<close>

text \<open>
  The values a configuration stores are plain data, and the values that every object
  inherits from \<^verbatim>\<open>Object.prototype\<close>. \<open>JObj\<close> is a plain object, given by the list of its own
  enumerable string-keyed properties in the order \<^verbatim>\<open>Object.keys\<close> yields them; its prototype
  is \<^verbatim>\<open>Object.prototype\<close>. \<open>JBuiltin\<close> is an object of the language itself, by name:
  \<^verbatim>\<open>Object.prototype\<close>, or one of its functions such as \<^verbatim>\<open>Object.prototype.toString\<close>. Arrays,
  the properties of primitives (the length of a string) and the properties of built-in
  functions that \<^verbatim>\<open>Object.prototype\<close> does not have (their \<^verbatim>\<open>length\<close> and \<^verbatim>\<open>name\<close>, and those of
  \<^verbatim>\<open>Function.prototype\<close>) are not modelled: a built-in function that is made the prototype of
  an object reads as \<^verbatim>\<open>Object.prototype\<close> does.
\<close>

datatype jsval =
    JUndefined
  | JNull
  | JBool bool
  | JNum int
  | JStr string
  | JObj "(string \<times> jsval) list"
  | JBuiltin string

type_synonym props = "(string \<times> jsval) list"

text \<open>The truthiness test of \<^verbatim>\<open>if (x)\<close>, \<^verbatim>\<open>x ? a : b\<close> and \<^verbatim>\<open>invariant(x, ...)\<close>.\<close>

fun truthy :: "jsval \<Rightarrow> bool" where
  "truthy JUndefined = False"
| "truthy JNull = False"
| "truthy (JBool b) = b"
| "truthy (JNum n) = (n \<noteq> 0)"
| "truthy (JStr s) = (s \<noteq> [])"
| "truthy (JObj ps) = True"
| "truthy (JBuiltin n) = True"

text \<open>\<^verbatim>\<open>x == null\<close>: true of \<^verbatim>\<open>null\<close> and \<^verbatim>\<open>undefined\<close> only.\<close>

fun nullish :: "jsval \<Rightarrow> bool" where
  "nullish JUndefined = True"
| "nullish JNull = True"
| "nullish v = False"

text \<open>\<^verbatim>\<open>typeof x === 'string'\<close>.\<close>

fun is_string :: "jsval \<Rightarrow> bool" where
  "is_string (JStr s) = True"
| "is_string v = False"

text \<open>A value that is an object (functions among them), as the setter of \<^verbatim>\<open>__proto__\<close> tests.\<close>

fun is_object :: "jsval \<Rightarrow> bool" where
  "is_object (JObj ps) = True"
| "is_object (JBuiltin n) = True"
| "is_object v = False"

subsection \<open>Objects and their prototype chain\<close>

text \<open>
  An object that can be written to: its own properties and its prototype, which is an
  object or \<^verbatim>\<open>null\<close>. An object literal starts with the prototype \<^verbatim>\<open>Object.prototype\<close>.
\<close>

record jsobject =
  own :: props
  proto :: jsval

definition Object_prototype :: jsval where
  "Object_prototype = JBuiltin ''Object.prototype''"

definition plain_object :: "props \<Rightarrow> jsobject" where
  "plain_object ps = \<lparr>own = ps, proto = Object_prototype\<rparr>"

text \<open>
  The property names of \<^verbatim>\<open>Object.prototype\<close>. All are functions but \<^verbatim>\<open>__proto__\<close>, an accessor
  whose getter gives the prototype of the object it is read on and whose setter changes
  that prototype when it is given an object or \<^verbatim>\<open>null\<close>, and does nothing otherwise.
\<close>

definition Object_prototype_names :: "string list" where
  "Object_prototype_names =
     [''constructor'', ''__defineGetter__'', ''__defineSetter__'', ''hasOwnProperty'',
      ''__lookupGetter__'', ''__lookupSetter__'', ''isPrototypeOf'', ''propertyIsEnumerable'',
      ''toString'', ''valueOf'', ''__proto__'', ''toLocaleString'']"

definition Object_prototype_read :: "jsval \<Rightarrow> string \<Rightarrow> jsval" where
  "Object_prototype_read receiver_proto key =
     (if key = ''__proto__'' then receiver_proto
      else if key \<in> set Object_prototype_names then JBuiltin (''Object.prototype.'' @ key)
      else JUndefined)"

text \<open>
  Reading a property that is not the object's own, through its prototype \<open>p\<close>: the
  properties of a plain prototype come first, then those of \<^verbatim>\<open>Object.prototype\<close>, from which
  every object inherits; a \<^verbatim>\<open>null\<close> prototype gives nothing.
\<close>

definition chain_read :: "jsval \<Rightarrow> string \<Rightarrow> jsval" where
  "chain_read p key =
     (case p of
        JObj ps \<Rightarrow> (case map_of ps key of Some v \<Rightarrow> v | None \<Rightarrow> Object_prototype_read p key)
      | JBuiltin n \<Rightarrow> Object_prototype_read p key
      | _ \<Rightarrow> JUndefined)"

definition chain_in :: "string \<Rightarrow> jsval \<Rightarrow> bool" where
  "chain_in key p =
     (case p of
        JObj ps \<Rightarrow> map_of ps key \<noteq> None \<or> key \<in> set Object_prototype_names
      | JBuiltin n \<Rightarrow> key \<in> set Object_prototype_names
      | _ \<Rightarrow> False)"

text \<open>\<^verbatim>\<open>obj[key]\<close> and \<^verbatim>\<open>key in obj\<close>.\<close>

definition obj_read :: "jsobject \<Rightarrow> string \<Rightarrow> jsval" where
  "obj_read obj key =
     (case map_of (own obj) key of Some v \<Rightarrow> v | None \<Rightarrow> chain_read (proto obj) key)"

definition obj_in :: "string \<Rightarrow> jsobject \<Rightarrow> bool" where
  "obj_in key obj = (map_of (own obj) key \<noteq> None \<or> chain_in key (proto obj))"

text \<open>
  The object inherits the accessor \<^verbatim>\<open>__proto__\<close>: its chain reaches \<^verbatim>\<open>Object.prototype\<close> and no
  property of a plain prototype hides it.
\<close>

definition inherits_proto_accessor :: "jsval \<Rightarrow> bool" where
  "inherits_proto_accessor p =
     (case p of
        JObj ps \<Rightarrow> map_of ps ''__proto__'' = None
      | JBuiltin n \<Rightarrow> True
      | _ \<Rightarrow> False)"

text \<open>
  \<^verbatim>\<open>obj[key] = value\<close>. An own property keeps its place and takes the new value. Otherwise,
  the key \<^verbatim>\<open>__proto__\<close> on an object that inherits the accessor runs the setter, which adds no
  property; any other key becomes a new own property, which goes last.
\<close>

definition obj_write :: "jsobject \<Rightarrow> string \<Rightarrow> jsval \<Rightarrow> jsobject" where
  "obj_write obj key v =
     (if map_of (own obj) key \<noteq> None then obj\<lparr>own := AList.update key v (own obj)\<rparr>
      else if key = ''__proto__'' \<and> inherits_proto_accessor (proto obj)
      then (if is_object v \<or> v = JNull then obj\<lparr>proto := v\<rparr> else obj)
      else obj\<lparr>own := AList.update key v (own obj)\<rparr>)"

text \<open>
  \<^verbatim>\<open>value[key]\<close> on a plain object, which inherits from \<^verbatim>\<open>Object.prototype\<close>; the properties
  of other values are not modelled and read as \<^verbatim>\<open>undefined\<close>. \<^verbatim>\<open>Object.keys\<close> of a plain object.
\<close>

fun js_read :: "jsval \<Rightarrow> string \<Rightarrow> jsval" where
  "js_read (JObj ps) key = obj_read (plain_object ps) key"
| "js_read v key = JUndefined"

definition Object_keys :: "props \<Rightarrow> string list" where
  "Object_keys ps = map fst ps"

section \<open>The deep-path accessor\<close>

text \<open>
  Modelled from the spec: \<^verbatim>\<open>get\<close> and \<^verbatim>\<open>isPlainObject\<close> of lodash-es are imported by
  config.ts and are not under src/. The spec describes \<^verbatim>\<open>get\<close> as a dotted, nested path
  lookup into a plain nested structure that returns the default value if the path is
  missing. The library reads a key that is a property of the object (\<^verbatim>\<open>key in object\<close>), or
  that has no dot, as one property name, and otherwise splits the key at its dots and
  walks the segments, stopping with \<^verbatim>\<open>undefined\<close> at the first \<^verbatim>\<open>null\<close> or \<^verbatim>\<open>undefined\<close> on the
  way. The bracket syntax of paths (\<^verbatim>\<open>a[0].b\<close>) is not modelled.
\<close>

fun split_dots :: "string \<Rightarrow> string \<Rightarrow> string list" where
  "split_dots acc [] = [rev acc]"
| "split_dots acc (c # cs) =
     (if c = CHR ''.'' then rev acc # split_dots [] cs else split_dots (c # acc) cs)"

definition stringToPath :: "string \<Rightarrow> string list" where
  "stringToPath key = split_dots [] key"

definition isKey :: "string \<Rightarrow> jsobject \<Rightarrow> bool" where
  "isKey key object = (CHR ''.'' \<notin> set key \<or> obj_in key object)"

definition castPath :: "string \<Rightarrow> jsobject \<Rightarrow> string list" where
  "castPath key object = (if isKey key object then [key] else stringToPath key)"

fun baseGet :: "jsval \<Rightarrow> string list \<Rightarrow> jsval" where
  "baseGet v [] = v"
| "baseGet v (p # path) = (if nullish v then JUndefined else baseGet (js_read v p) path)"

definition lodashGet :: "jsobject \<Rightarrow> string \<Rightarrow> jsval \<Rightarrow> jsval" where
  "lodashGet object key defaultValue =
     (let result = (case castPath key object of
                      [] \<Rightarrow> JUndefined
                    | p # path \<Rightarrow> baseGet (obj_read object p) path)
      in if result = JUndefined then defaultValue else result)"

fun isPlainObject :: "jsval \<Rightarrow> bool" where
  "isPlainObject (JObj ps) = True"
| "isPlainObject v = False"

section \<open>The configuration store\<close>

text \<open>
  A waiter's \<^verbatim>\<open>resolve\<close> is a function, compared by identity in \<^verbatim>\<open>delWait\<close>. \<open>Fn n\<close> is the
  caller's function number \<open>n\<close>; \<open>Resolver p\<close> is the resolving function of the promise
  number \<open>p\<close> that \<^verbatim>\<open>onceGot\<close> created. Under \<open>invoke\<close> a caller's function only records that
  it was called; it does not call back into the store.
\<close>

datatype callback = Fn nat | Resolver nat

record wait =
  once :: bool
  resolve :: callback

datatype promise = Pending | Fulfilled jsval

datatype error = InvariantViolation string | TypeError

text \<open>
  The private fields of the class (\<^verbatim>\<open>#strictMode\<close>, \<^verbatim>\<open>#setterValidator\<close>, \<^verbatim>\<open>#config\<close>,
  \<^verbatim>\<open>#waits\<close>), and what the store does to the world around it: the calls it makes to
  waiters, oldest first, each with its argument; the promises \<^verbatim>\<open>onceGot\<close> has created; the
  warnings given to the logger, each the message and the second argument.
\<close>

record configuration =
  strictMode :: bool
  setterValidator :: "string \<Rightarrow> jsval \<Rightarrow> jsval"
  config :: jsobject
  waits :: "string \<rightharpoonup> wait list"
  calls :: "(callback \<times> jsval) list"
  promises :: "promise list"
  warnings :: "(string \<times> jsval) list"

text \<open>
  Calling a waiter. A promise settles on the first call of its resolving function and
  ignores the later ones; it is fulfilled with the value it is given (a value with a
  callable \<^verbatim>\<open>then\<close> is not modelled).
\<close>

fun invoke :: "callback \<Rightarrow> jsval \<Rightarrow> configuration \<Rightarrow> configuration" where
  "invoke (Fn n) v s = s\<lparr>calls := calls s @ [(Fn n, v)]\<rparr>"
| "invoke (Resolver p) v s =
     s\<lparr>calls := calls s @ [(Resolver p, v)],
       promises := (if p < length (promises s) \<and> promises s ! p = Pending
                    then (promises s)[p := Fulfilled v] else promises s)\<rparr>"

definition has :: "configuration \<Rightarrow> string \<Rightarrow> bool" where
  "has s key = (obj_read (config s) key \<noteq> JUndefined)"

definition get :: "configuration \<Rightarrow> string \<Rightarrow> jsval \<Rightarrow> jsval" where
  "get s key defaultValue = lodashGet (config s) key defaultValue"

text \<open>\<^verbatim>\<open>waits.splice(i, 1)\<close>.\<close>

definition splice1 :: "'a list \<Rightarrow> nat \<Rightarrow> 'a list" where
  "splice1 xs i = take i xs @ drop (Suc i) xs"

text \<open>
  The loop of \<^verbatim>\<open>notifyGot\<close>: \<^verbatim>\<open>while (i--)\<close> tests \<open>i\<close>, decrements it and runs the body at
  the decremented index. Reading \<^verbatim>\<open>waits[i]\<close> past the end would give \<^verbatim>\<open>undefined\<close>, and its
  \<^verbatim>\<open>.resolve\<close> a TypeError. What calling a waiter does to the store is the parameter
  \<open>call\<close>: \<open>invoke\<close> for waiters that do not call back into the store.
\<close>

type_synonym calling = "callback \<Rightarrow> jsval \<Rightarrow> configuration \<Rightarrow> configuration"

fun notifyGot_loop ::
  "calling \<Rightarrow> string \<Rightarrow> nat \<Rightarrow> wait list \<Rightarrow> configuration \<Rightarrow>
   error + (wait list \<times> configuration)" where
  "notifyGot_loop call key 0 ws s = Inr (ws, s)"
| "notifyGot_loop call key (Suc i) ws s =
     (if i < length ws
      then let s' = call (resolve (ws ! i)) (get s key JUndefined) s;
               ws' = (if once (ws ! i) then splice1 ws i else ws)
           in notifyGot_loop call key i ws' s'
      else Inl TypeError)"

definition notifyGot_calling :: "calling \<Rightarrow> string \<Rightarrow> configuration \<Rightarrow> error + configuration" where
  "notifyGot_calling call key s =
     (case waits s key of
        None \<Rightarrow> Inr s
      | Some stored \<Rightarrow>
          (let ws = rev stored
           in case notifyGot_loop call key (length ws) ws s of
                Inl e \<Rightarrow> Inl e
              | Inr (ws', s') \<Rightarrow>
                  if length ws' > 0
                  then Inr (s'\<lparr>waits := (waits s')(key \<mapsto> ws')\<rparr>)
                  else Inr (s'\<lparr>waits := (waits s')(key := None)\<rparr>)))"

definition notifyGot :: "string \<Rightarrow> configuration \<Rightarrow> error + configuration" where
  "notifyGot key s = notifyGot_calling invoke key s"

definition setWait :: "string \<Rightarrow> callback \<Rightarrow> bool \<Rightarrow> configuration \<Rightarrow> configuration" where
  "setWait key res onceFlag s =
     (case waits s key of
        Some ws \<Rightarrow> s\<lparr>waits := (waits s)(key \<mapsto> ws @ [\<lparr>once = onceFlag, resolve = res\<rparr>])\<rparr>
      | None \<Rightarrow> s\<lparr>waits := (waits s)(key \<mapsto> [\<lparr>once = onceFlag, resolve = res\<rparr>])\<rparr>)"

text \<open>The loop of \<^verbatim>\<open>delWait\<close>, over the stored array itself.\<close>

fun delWait_loop :: "callback \<Rightarrow> nat \<Rightarrow> wait list \<Rightarrow> error + wait list" where
  "delWait_loop fn 0 ws = Inr ws"
| "delWait_loop fn (Suc i) ws =
     (if i < length ws
      then delWait_loop fn i (if resolve (ws ! i) = fn then splice1 ws i else ws)
      else Inl TypeError)"

definition delWait :: "string \<Rightarrow> callback \<Rightarrow> configuration \<Rightarrow> error + configuration" where
  "delWait key fn s =
     (case waits s key of
        None \<Rightarrow> Inr s
      | Some ws \<Rightarrow>
          (case delWait_loop fn (length ws) ws of
             Inl e \<Rightarrow> Inl e
           | Inr ws' \<Rightarrow>
               if length ws' < 1
               then Inr (s\<lparr>waits := (waits s)(key := None)\<rparr>)
               else Inr (s\<lparr>waits := (waits s)(key \<mapsto> ws')\<rparr>)))"

text \<open>
  \<^verbatim>\<open>set\<close>. Under strict mode a validator result that is \<^verbatim>\<open>false\<close> or a string returns early
  with a warning; otherwise the value is written and the waiters of the key are notified.
\<close>

definition warn_message :: "string \<Rightarrow> string" where
  "warn_message key =
     ''failed to config '' @ key @
     '', only predefined options can be set under strict mode, predefined options: ''"

definition set_key :: "string \<Rightarrow> jsval \<Rightarrow> configuration \<Rightarrow> error + configuration" where
  "set_key key v s =
     (let written = notifyGot key (s\<lparr>config := obj_write (config s) key v\<rparr>)
      in if strictMode s
         then (let valid = setterValidator s key v
               in if valid = JBool False \<or> is_string valid
                  then Inr (s\<lparr>warnings := warnings s @
                              [(warn_message key, if truthy valid then valid else JStr [])]\<rparr>)
                  else written)
         else written)"

text \<open>\<^verbatim>\<open>setConfig\<close>: \<^verbatim>\<open>Object.keys(config).forEach\<close> over the argument's own keys.\<close>

fun props_of :: "jsval \<Rightarrow> props" where
  "props_of (JObj ps) = ps"
| "props_of v = []"

fun forEach_set :: "jsval \<Rightarrow> string list \<Rightarrow> configuration \<Rightarrow> error + configuration" where
  "forEach_set cfg [] s = Inr s"
| "forEach_set cfg (key # keys) s =
     (case set_key key (js_read cfg key) s of
        Inl e \<Rightarrow> Inl e
      | Inr s' \<Rightarrow> forEach_set cfg keys s')"

definition setConfig :: "jsval \<Rightarrow> configuration \<Rightarrow> error + configuration" where
  "setConfig cfg s =
     (if isPlainObject cfg then forEach_set cfg (Object_keys (props_of cfg)) s
      else Inr s)"

text \<open>
  \<^verbatim>\<open>onceGot\<close> returns a promise, here its number: already fulfilled when the key has a
  value, otherwise pending with its resolving function registered as a once-waiter (the
  executor of \<^verbatim>\<open>new Promise\<close> runs at once).
\<close>

definition onceGot :: "string \<Rightarrow> configuration \<Rightarrow> nat \<times> configuration" where
  "onceGot key s =
     (let val = obj_read (config s) key; p = length (promises s)
      in if val \<noteq> JUndefined
         then (p, s\<lparr>promises := promises s @ [Fulfilled val]\<rparr>)
         else (p, setWait key (Resolver p) True (s\<lparr>promises := promises s @ [Pending]\<rparr>)))"

text \<open>
  \<^verbatim>\<open>onGot\<close> returns the function that unsubscribes, \<^verbatim>\<open>() => this.delWait(key, fn)\<close>, and
  registers with \<^verbatim>\<open>once\<close> left out, which the loop of \<^verbatim>\<open>notifyGot\<close> reads as false.
\<close>

definition onGot ::
  "string \<Rightarrow> callback \<Rightarrow> configuration \<Rightarrow>
   (configuration \<Rightarrow> error + configuration) \<times> configuration" where
  "onGot key fn s =
     (let val = obj_read (config s) key;
          s1 = (if val \<noteq> JUndefined then invoke fn val s else s)
      in (delWait key fn, setWait key fn False s1))"

subsection \<open>Construction\<close>

text \<open>
  Modelled from the spec: \<^verbatim>\<open>invariant\<close> of @alilc/lowcode-shared is not under src/. The
  spec calls it a precondition check that fails immediately and synchronously: it throws
  when its first argument is falsy and does nothing otherwise.
\<close>

definition invariant :: "bool \<Rightarrow> string \<Rightarrow> error + unit" where
  "invariant check message = (if check then Inr () else Inl (InvariantViolation message))"

text \<open>
  An argument declared to be a function, as it arrives at run time: a function, or some
  value that is none (\<^verbatim>\<open>undefined\<close> when the argument is left out).
\<close>

datatype 'f supplied = NotFunction jsval | Function 'f

fun supplied_truthy :: "'f supplied \<Rightarrow> bool" where
  "supplied_truthy (Function f) = True"
| "supplied_truthy (NotFunction v) = truthy v"

fun typeof_function :: "'f supplied \<Rightarrow> bool" where
  "typeof_function (Function f) = True"
| "typeof_function (NotFunction v) = False"

record configurationOptions =
  opt_strictMode :: jsval
  opt_setterValidator :: "(string \<Rightarrow> jsval \<Rightarrow> jsval) supplied"

text \<open>
  The constructor. The type of \<^verbatim>\<open>config\<close> is a plain object, so the argument is the
  object's properties, or \<open>None\<close> for a config that is missing (\<^verbatim>\<open>undefined\<close> or \<^verbatim>\<open>null\<close>);
  an object is always truthy. \<open>None\<close> for the options is \<^verbatim>\<open>options ?? {}\<close>.
\<close>

definition new_Configuration ::
  "props option \<Rightarrow> configurationOptions option \<Rightarrow> error + configuration" where
  "new_Configuration cfg options =
     (case invariant (cfg \<noteq> None) ''config must exist'' of
        Inl e \<Rightarrow> Inl e
      | Inr _ \<Rightarrow>
          (let strictMode_arg = (case options of None \<Rightarrow> JUndefined | Some opts \<Rightarrow> opt_strictMode opts);
               setterValidator_arg =
                 (case options of None \<Rightarrow> NotFunction JUndefined
                  | Some opts \<Rightarrow> opt_setterValidator opts);
               s0 = \<lparr>strictMode = True,
                     setterValidator = (\<lambda>key v. JBool True),
                     config = plain_object (case cfg of Some ps \<Rightarrow> ps | None \<Rightarrow> []),
                     waits = Map.empty,
                     calls = [],
                     promises = [],
                     warnings = []\<rparr>;
               s1 = (if strictMode_arg = JBool False then s0\<lparr>strictMode := False\<rparr> else s0)
           in if supplied_truthy setterValidator_arg
              then (case invariant (typeof_function setterValidator_arg)
                           ''setterValidator must be a function'' of
                      Inl e \<Rightarrow> Inl e
                    | Inr _ \<Rightarrow>
                        (case setterValidator_arg of
                           Function f \<Rightarrow> Inr (s1\<lparr>setterValidator := f\<rparr>)
                         | NotFunction v \<Rightarrow> Inr s1))
              else Inr s1))"

section \<open>The bootstrapper\<close>

subsection \<open>Collaborators\<close>

text \<open>
  Modelled from the spec: the lifecycle service (\<^verbatim>\<open>./services/lifeCycleService\<close>) is not
  under src/. The spec gives the phases in their order, Uninitialized, OptionsResolved,
  Ready, AfterInitPackageLoad; \<^verbatim>\<open>when(target)\<close> resolves once the phase has reached or passed
  the target, at once if it already has; the setter of \<^verbatim>\<open>phase\<close> stores the phase.
\<close>

datatype LifecyclePhase = Uninitialized | OptionsResolved | Ready | AfterInitPackageLoad

fun rank :: "LifecyclePhase \<Rightarrow> nat" where
  "rank Uninitialized = 0"
| "rank OptionsResolved = 1"
| "rank Ready = 2"
| "rank AfterInitPackageLoad = 3"

definition reached :: "LifecyclePhase \<Rightarrow> LifecyclePhase \<Rightarrow> bool" where
  "reached current target = (rank target \<le> rank current)"

text \<open>The services injected into the constructor, as opaque handles.\<close>

datatype service =
    CodeRuntimeService
  | PackageManagementService
  | SchemaService
  | ExtensionHostService
  | ComponentTreeModelService
  | BoostsService
  | LifeCycleService

text \<open>
  What awaiting a call gives: the promise fulfils with a value, or it rejects (a call
  that throws rejects the enclosing async function in the same way).
\<close>

datatype 'a outcome = Fulfils 'a | Rejects

text \<open>\<^verbatim>\<open>registerPlugin\<close> takes a list of plugins (from \<^verbatim>\<open>main\<close>) or one plugin (from \<^verbatim>\<open>use\<close>).\<close>

datatype plugins_arg = PluginList "jsval list" | Plugin jsval

type_synonym renderContext = "(string \<times> service) list"

type_synonym renderAdapter = "renderContext \<Rightarrow> props outcome"

text \<open>The behaviour of the plugin host and of the package service, parameters of the model.\<close>

record collaborators =
  registerPlugin :: "plugins_arg \<Rightarrow> unit outcome"
  loadPackages :: "jsval list \<Rightarrow> unit outcome"

text \<open>
  The options of \<^verbatim>\<open>main\<close>. A field that is left out is \<^verbatim>\<open>undefined\<close> (\<open>JUndefined\<close>, or
  \<open>None\<close> for the two lists).
\<close>

record appOptions =
  opt_schema :: jsval
  opt_mode :: jsval
  opt_plugins :: "jsval list option"
  opt_codeRuntime :: jsval
  opt_packages :: "jsval list option"

text \<open>The calls made to the collaborators and the assignments to the phase, in order.\<close>

datatype event =
    SchemaInitialize jsval
  | CodeRuntimeInitialize jsval
  | PhaseSet LifecyclePhase
  | AdapterCall renderContext
  | AdapterReturn props
  | RegisterPlugin plugins_arg
  | RegisterPluginDone
  | LoadPackages "jsval list"
  | LoadPackagesDone

subsection \<open>The application object\<close>

datatype app_value =
    Plain jsval
  | Handle service
  | InitOptions "appOptions option"
  | UseClosure

record application =
  properties :: "(string \<times> app_value) list"
  frozen :: bool

text \<open>
  An object literal: its properties are written one after the other, so a later property
  of the same name takes the place of an earlier one.
\<close>

definition object_literal :: "(string \<times> app_value) list \<Rightarrow> (string \<times> app_value) list" where
  "object_literal kvs = foldl (\<lambda>acc kv. AList.update (fst kv) (snd kv) acc) [] kvs"

text \<open>\<^verbatim>\<open>...this.renderObject\<close>: the own properties of the object, none of \<^verbatim>\<open>undefined\<close>.\<close>

definition spread :: "props option \<Rightarrow> (string \<times> app_value) list" where
  "spread ro = (case ro of None \<Rightarrow> [] | Some ps \<Rightarrow> map (\<lambda>kv. (fst kv, Plain (snd kv))) ps)"

definition Object_freeze :: "(string \<times> app_value) list \<Rightarrow> application" where
  "Object_freeze kvs = \<lparr>properties = kvs, frozen = True\<rparr>"

definition app_read :: "application \<Rightarrow> string \<Rightarrow> app_value option" where
  "app_read app key = map_of (properties app) key"

text \<open>
  \<^verbatim>\<open>app.key = value\<close>. On a frozen object the assignment throws a TypeError in strict code
  and is ignored in sloppy code; in neither case is there a changed object.
\<close>

definition assign :: "bool \<Rightarrow> application \<Rightarrow> string \<Rightarrow> app_value \<Rightarrow> error + application" where
  "assign strict app key v =
     (if frozen app then (if strict then Inl TypeError else Inr app)
      else Inr (app\<lparr>properties := AList.update key v (properties app)\<rparr>))"

subsection \<open>RendererMain\<close>

text \<open>
  Each async function is a task that runs up to its next \<^verbatim>\<open>await\<close>. Where it waits is its
  program point, which also holds what it needs to go on: the local \<^verbatim>\<open>plugins\<close>, or the
  outcome of the call it awaits.
\<close>

datatype continuation_pc =
    AwaitOptionsResolved
  | AwaitAdapter "props outcome"
  | ContinuationDone
  | ContinuationFailed

datatype main_pc =
    MainNotCalled
  | AwaitReady "jsval list"
  | AwaitRegisterPlugin "unit outcome"
  | AwaitLoadPackages "unit outcome"
  | MainDone
  | MainFailed

datatype getApp_pc =
    GetAppNotCalled
  | AwaitAfterInitPackageLoad
  | GetAppDone application

datatype boot_pc =
    BootNotCalled
  | AwaitMain
  | AwaitGetApp
  | BootDone application
  | BootFailed

text \<open>
  The fields of the class, the phase held by the lifecycle service, the trace of events,
  and the program points of the continuation registered by the constructor, of \<^verbatim>\<open>main\<close>,
  of \<^verbatim>\<open>getApp\<close> and of the function \<^verbatim>\<open>createRenderer\<close> returns.
\<close>

record rendererMain =
  mode :: jsval
  initOptions :: "appOptions option"
  renderObject :: "props option"
  adapter :: "renderAdapter option"
  phase :: LifecyclePhase
  trace :: "event list"
  continuation :: continuation_pc
  main_at :: main_pc
  getApp_at :: getApp_pc
  boot_at :: boot_pc

text \<open>
  The constructor registers the continuation on \<^verbatim>\<open>when(OptionsResolved)\<close>; \<^verbatim>\<open>mode\<close> starts as
  \<^verbatim>\<open>'production'\<close>.
\<close>

definition new_RendererMain :: rendererMain where
  "new_RendererMain =
     \<lparr>mode = JStr ''production'', initOptions = None, renderObject = None, adapter = None,
      phase = Uninitialized, trace = [], continuation = AwaitOptionsResolved,
      main_at = MainNotCalled, getApp_at = GetAppNotCalled, boot_at = BootNotCalled\<rparr>"

definition set_phase :: "LifecyclePhase \<Rightarrow> rendererMain \<Rightarrow> rendererMain" where
  "set_phase p s = s\<lparr>phase := p, trace := trace s @ [PhaseSet p]\<rparr>"

definition the_renderContext :: renderContext where
  "the_renderContext =
     [(''schema'', SchemaService), (''packageManager'', PackageManagementService),
      (''boostsManager'', BoostsService), (''componentTreeModel'', ComponentTreeModelService),
      (''lifeCycle'', LifeCycleService)]"

text \<open>
  The continuation: once the phase is OptionsResolved it builds the render context and
  calls the adapter (an adapter that is still \<^verbatim>\<open>undefined\<close> is a TypeError, which rejects
  the continuation); once the adapter's result is there it stores it and sets the phase
  to Ready.
\<close>

definition resume_continuation :: "rendererMain \<Rightarrow> rendererMain option" where
  "resume_continuation s =
     (case continuation s of
        AwaitOptionsResolved \<Rightarrow>
          if reached (phase s) OptionsResolved
          then (case adapter s of
                  None \<Rightarrow> Some (s\<lparr>continuation := ContinuationFailed\<rparr>)
                | Some f \<Rightarrow>
                    Some (s\<lparr>trace := trace s @ [AdapterCall the_renderContext],
                            continuation := AwaitAdapter (f the_renderContext)\<rparr>))
          else None
      | AwaitAdapter result \<Rightarrow>
          (case result of
             Rejects \<Rightarrow> Some (s\<lparr>continuation := ContinuationFailed\<rparr>)
           | Fulfils ro \<Rightarrow>
               Some (set_phase Ready
                      (s\<lparr>renderObject := Some ro, trace := trace s @ [AdapterReturn ro],
                         continuation := ContinuationDone\<rparr>)))
      | ContinuationDone \<Rightarrow> None
      | ContinuationFailed \<Rightarrow> None)"

text \<open>
  \<^verbatim>\<open>main\<close> up to its first \<^verbatim>\<open>await\<close>. The two \<^verbatim>\<open>initialize\<close> calls are taken to return
  normally (the schema is valid).
\<close>

definition main_call :: "appOptions \<Rightarrow> renderAdapter \<Rightarrow> rendererMain \<Rightarrow> rendererMain" where
  "main_call options adapter_arg s =
     (let plugins = (case opt_plugins options of None \<Rightarrow> [] | Some ps \<Rightarrow> ps);
          s1 = (if truthy (opt_mode options) then s\<lparr>mode := opt_mode options\<rparr> else s);
          s2 = s1\<lparr>initOptions := Some options, adapter := Some adapter_arg\<rparr>;
          s3 = s2\<lparr>trace := trace s2 @
                  [SchemaInitialize (opt_schema options),
                   CodeRuntimeInitialize
                     (if nullish (opt_codeRuntime options) then JObj []
                      else opt_codeRuntime options)]\<rparr>;
          s4 = set_phase OptionsResolved s3
      in s4\<lparr>main_at := AwaitReady plugins\<rparr>)"

definition call_registerPlugin ::
  "collaborators \<Rightarrow> plugins_arg \<Rightarrow> rendererMain \<Rightarrow> unit outcome \<times> rendererMain" where
  "call_registerPlugin svc arg s = (registerPlugin svc arg, s\<lparr>trace := trace s @ [RegisterPlugin arg]\<rparr>)"

text \<open>
  \<^verbatim>\<open>main\<close> after each \<^verbatim>\<open>await\<close>. Reading \<^verbatim>\<open>this.initOptions.packages\<close> of an \<^verbatim>\<open>initOptions\<close>
  that is \<^verbatim>\<open>undefined\<close> is a TypeError.
\<close>

definition resume_main :: "collaborators \<Rightarrow> rendererMain \<Rightarrow> rendererMain option" where
  "resume_main svc s =
     (case main_at s of
        MainNotCalled \<Rightarrow> None
      | AwaitReady plugins \<Rightarrow>
          if reached (phase s) Ready
          then (let (result, s') = call_registerPlugin svc (PluginList plugins) s
                in Some (s'\<lparr>main_at := AwaitRegisterPlugin result\<rparr>))
          else None
      | AwaitRegisterPlugin result \<Rightarrow>
          (case result of
             Rejects \<Rightarrow> Some (s\<lparr>main_at := MainFailed\<rparr>)
           | Fulfils _ \<Rightarrow>
               (case initOptions s of
                  None \<Rightarrow> Some (s\<lparr>trace := trace s @ [RegisterPluginDone], main_at := MainFailed\<rparr>)
                | Some options \<Rightarrow>
                    (let packages = (case opt_packages options of None \<Rightarrow> [] | Some ps \<Rightarrow> ps)
                     in Some (s\<lparr>trace := trace s @ [RegisterPluginDone, LoadPackages packages],
                               main_at := AwaitLoadPackages (loadPackages svc packages)\<rparr>))))
      | AwaitLoadPackages result \<Rightarrow>
          (case result of
             Rejects \<Rightarrow> Some (s\<lparr>main_at := MainFailed\<rparr>)
           | Fulfils _ \<Rightarrow>
               Some (set_phase AfterInitPackageLoad
                      (s\<lparr>trace := trace s @ [LoadPackagesDone], main_at := MainDone\<rparr>)))
      | MainDone \<Rightarrow> None
      | MainFailed \<Rightarrow> None)"

text \<open>\<^verbatim>\<open>getApp\<close>: the object it builds, the call up to the \<^verbatim>\<open>await\<close>, and the rest.\<close>

definition build_app :: "rendererMain \<Rightarrow> application" where
  "build_app s =
     Object_freeze
       (object_literal
          ([(''__options'', InitOptions (initOptions s)),
            (''mode'', Plain (mode s)),
            (''schema'', Handle SchemaService),
            (''packageManager'', Handle PackageManagementService)] @
           spread (renderObject s) @
           [(''use'', UseClosure)]))"

definition getApp_call :: "rendererMain \<Rightarrow> rendererMain" where
  "getApp_call s = s\<lparr>getApp_at := AwaitAfterInitPackageLoad\<rparr>"

definition resume_getApp :: "rendererMain \<Rightarrow> rendererMain option" where
  "resume_getApp s =
     (case getApp_at s of
        GetAppNotCalled \<Rightarrow> None
      | AwaitAfterInitPackageLoad \<Rightarrow>
          if reached (phase s) AfterInitPackageLoad
          then Some (s\<lparr>getApp_at := GetAppDone (build_app s)\<rparr>)
          else None
      | GetAppDone app \<Rightarrow> None)"

text \<open>The \<^verbatim>\<open>use\<close> method of the application object.\<close>

definition use :: "collaborators \<Rightarrow> jsval \<Rightarrow> rendererMain \<Rightarrow> unit outcome \<times> rendererMain" where
  "use svc plugin s = call_registerPlugin svc (Plugin plugin) s"

subsection \<open>createRenderer\<close>

text \<open>
  The function \<^verbatim>\<open>createRenderer\<close> returns: it calls \<^verbatim>\<open>main\<close>, awaits it, then calls \<^verbatim>\<open>getApp\<close>
  and returns its promise.
\<close>

definition boot_call :: "renderAdapter \<Rightarrow> appOptions \<Rightarrow> rendererMain \<Rightarrow> rendererMain" where
  "boot_call renderAdapter_arg options s = (main_call options renderAdapter_arg s)\<lparr>boot_at := AwaitMain\<rparr>"

definition resume_boot :: "rendererMain \<Rightarrow> rendererMain option" where
  "resume_boot s =
     (case boot_at s of
        BootNotCalled \<Rightarrow> None
      | AwaitMain \<Rightarrow>
          (case main_at s of
             MainDone \<Rightarrow> Some ((getApp_call s)\<lparr>boot_at := AwaitGetApp\<rparr>)
           | MainFailed \<Rightarrow> Some (s\<lparr>boot_at := BootFailed\<rparr>)
           | _ \<Rightarrow> None)
      | AwaitGetApp \<Rightarrow>
          (case getApp_at s of
             GetAppDone app \<Rightarrow> Some (s\<lparr>boot_at := BootDone app\<rparr>)
           | _ \<Rightarrow> None)
      | BootDone app \<Rightarrow> None
      | BootFailed \<Rightarrow> None)"

text \<open>
  \<^verbatim>\<open>createRenderer\<close> checks its argument first; the instantiation service then builds the
  one RendererMain. The result is the fresh instance together with the adapter that the
  returned function will pass to \<^verbatim>\<open>main\<close>.
\<close>

definition createRenderer :: "renderAdapter supplied \<Rightarrow> error + (rendererMain \<times> renderAdapter)" where
  "createRenderer renderAdapter_arg =
     (case invariant (typeof_function renderAdapter_arg)
             ''The first parameter must be a function.'' of
        Inl e \<Rightarrow> Inl e
      | Inr _ \<Rightarrow>
          (case renderAdapter_arg of
             Function f \<Rightarrow> Inr (new_RendererMain, f)
           | NotFunction v \<Rightarrow> Inl (InvariantViolation ''The first parameter must be a function.'')))"

subsection \<open>Scheduling\<close>

text \<open>
  The tasks that can be resumed. A schedule is any list of tasks; resuming a task that
  is not ready to go on does nothing. JavaScript runs the tasks in one particular order,
  which is one of the schedules.
\<close>

datatype task = Continuation | Main | GetApp | Boot

fun step :: "collaborators \<Rightarrow> task \<Rightarrow> rendererMain \<Rightarrow> rendererMain option" where
  "step svc Continuation s = resume_continuation s"
| "step svc Main s = resume_main svc s"
| "step svc GetApp s = resume_getApp s"
| "step svc Boot s = resume_boot s"

fun run_tasks :: "collaborators \<Rightarrow> task list \<Rightarrow> rendererMain \<Rightarrow> rendererMain" where
  "run_tasks svc [] s = s"
| "run_tasks svc (t # ts) s =
     (case step svc t s of None \<Rightarrow> run_tasks svc ts s | Some s' \<Rightarrow> run_tasks svc ts s')"

section \<open>Notions used in the statements\<close>

text \<open>The waiters stored for a key, none when the key has no entry in \<^verbatim>\<open>#waits\<close>.\<close>

definition waiters :: "configuration \<Rightarrow> string \<Rightarrow> wait list" where
  "waiters s key = (case waits s key of None \<Rightarrow> [] | Some ws \<Rightarrow> ws)"

definition persistent :: "wait list \<Rightarrow> wait list" where
  "persistent ws = filter (\<lambda>w. \<not> once w) ws"

text \<open>Calling the waiters of a list one after the other, first to last, with one value.\<close>

definition fire :: "wait list \<Rightarrow> jsval \<Rightarrow> configuration \<Rightarrow> configuration" where
  "fire ws v s = foldl (\<lambda>s w. invoke (resolve w) v s) s ws"

text \<open>\<^verbatim>\<open>set\<close> goes through: strict mode is off, or the validator answers neither \<^verbatim>\<open>false\<close> nor a string.\<close>

definition accepted :: "configuration \<Rightarrow> string \<Rightarrow> jsval \<Rightarrow> bool" where
  "accepted s key v =
     (\<not> (strictMode s \<and>
         (setterValidator s key v = JBool False \<or> is_string (setterValidator s key v))))"

text \<open>
  The assignment \<^verbatim>\<open>obj[key] = v\<close> stores \<open>v\<close> as an own property of the object: the key is not
  \<^verbatim>\<open>__proto__\<close>, or the object has it as an own property, or does not inherit the accessor.
\<close>

definition stores_own :: "jsobject \<Rightarrow> string \<Rightarrow> bool" where
  "stores_own obj key =
     (key \<noteq> ''__proto__'' \<or> map_of (own obj) key \<noteq> None \<or> \<not> inherits_proto_accessor (proto obj))"

text \<open>The store \<^verbatim>\<open>new Configuration({})\<close> builds, and the same with two subscribers of one key.\<close>

definition empty_store :: configuration where
  "empty_store =
     \<lparr>strictMode = True, setterValidator = (\<lambda>key v. JBool True), config = plain_object [],
      waits = Map.empty, calls = [], promises = [], warnings = []\<rparr>"

definition two_waiters :: configuration where
  "two_waiters = setWait ''k'' (Fn 2) False (setWait ''k'' (Fn 1) False empty_store)"

text \<open>
  A strict store whose validator turns the key \<open>x\<close> down with \<^verbatim>\<open>false\<close>, the key \<open>z\<close> with a
  reason, and approves every other key; and a store whose configuration is
  \<^verbatim>\<open>{a: {b: 1}}\<close>.
\<close>

definition strict_store :: configuration where
  "strict_store =
     empty_store\<lparr>setterValidator :=
       (\<lambda>key v. if key = ''x'' then JBool False
                else if key = ''z'' then JStr ''not an option'' else JBool True)\<rparr>"

definition nested_store :: configuration where
  "nested_store = empty_store\<lparr>config := plain_object [(''a'', JObj [(''b'', JNum 1)])]\<rparr>"

text \<open>
  The public methods that change a store, as operations, so that statements can speak of
  what happens later. The functions a caller can pass are its own (\<open>Fn n\<close>): the resolving
  function of a promise never leaves \<^verbatim>\<open>onceGot\<close>. \<open>DelWait\<close> is also what the function
  returned by \<^verbatim>\<open>onGot\<close> does.
\<close>

datatype op =
    Set string jsval
  | SetConfig jsval
  | OnceGot string
  | OnGot string nat
  | NotifyGot string
  | SetWait string nat bool
  | DelWait string nat

fun exec :: "op \<Rightarrow> configuration \<Rightarrow> error + configuration" where
  "exec (Set key v) s = set_key key v s"
| "exec (SetConfig cfg) s = setConfig cfg s"
| "exec (OnceGot key) s = Inr (snd (onceGot key s))"
| "exec (OnGot key n) s = Inr (snd (onGot key (Fn n) s))"
| "exec (NotifyGot key) s = notifyGot key s"
| "exec (SetWait key n b) s = Inr (setWait key (Fn n) b s)"
| "exec (DelWait key n) s = delWait key (Fn n) s"

fun run :: "op list \<Rightarrow> configuration \<Rightarrow> error + configuration" where
  "run [] s = Inr s"
| "run (x # xs) s = (case exec x s of Inl e \<Rightarrow> Inl e | Inr s' \<Rightarrow> run xs s')"



text \<open>
  Every resolving function that is registered or was called belongs to a promise that
  exists. The constructor builds such a store and every operation keeps it so.
\<close>

definition well_formed :: "configuration \<Rightarrow> bool" where
  "well_formed s =
     ((\<forall>key. \<forall>w \<in> set (waiters s key). \<forall>q. resolve w = Resolver q \<longrightarrow> q < length (promises s)) \<and>
      (\<forall>x \<in> set (calls s). \<forall>q. fst x = Resolver q \<longrightarrow> q < length (promises s)))"



text \<open>
  A caller's function that, each time it is called, calls the function \<^verbatim>\<open>onGot\<close> returned
  to it, \<^verbatim>\<open>() => this.delWait(key, fn)\<close>, which does not throw; every other function only
  records the call.
\<close>

definition unsubscribing :: "string \<Rightarrow> callback \<Rightarrow> calling" where
  "unsubscribing key fn c v s =
     (if c = fn
      then (case delWait key fn (invoke c v s) of Inl e \<Rightarrow> invoke c v s | Inr s' \<Rightarrow> s')
      else invoke c v s)"

text \<open>
  A key or a segment of a key that is written without the bracket syntax of paths and
  without a dot. A dotted key, from its segments. The value reached from a value by
  following own properties of plain objects, one for each segment, if there is one.
\<close>

definition plain_segment :: "string \<Rightarrow> bool" where
  "plain_segment x = (CHR ''.'' \<notin> set x \<and> CHR ''['' \<notin> set x \<and> CHR '']'' \<notin> set x)"

fun dotted :: "string list \<Rightarrow> string" where
  "dotted [] = []"
| "dotted [p] = p"
| "dotted (p # q # ps) = p @ CHR ''.'' # dotted (q # ps)"

fun own_path :: "jsval \<Rightarrow> string list \<Rightarrow> jsval option" where
  "own_path v [] = Some v"
| "own_path (JObj ps) (p # path) =
     (case map_of ps p of None \<Rightarrow> None | Some w \<Rightarrow> own_path w path)"
| "own_path v (p # path) = None"

section \<open>Notions used in the statements about the bootstrapper\<close>

text \<open>
  The defaults \<^verbatim>\<open>main\<close> applies to its options: \<^verbatim>\<open>plugins = []\<close>, \<^verbatim>\<open>packages ?? []\<close>,
  \<^verbatim>\<open>codeRuntime ?? {}\<close>.
\<close>

definition plugins_of :: "appOptions \<Rightarrow> jsval list" where
  "plugins_of options = (case opt_plugins options of None \<Rightarrow> [] | Some ps \<Rightarrow> ps)"

definition packages_of :: "appOptions \<Rightarrow> jsval list" where
  "packages_of options = (case opt_packages options of None \<Rightarrow> [] | Some ps \<Rightarrow> ps)"

definition codeRuntime_of :: "appOptions \<Rightarrow> jsval" where
  "codeRuntime_of options =
     (if nullish (opt_codeRuntime options) then JObj [] else opt_codeRuntime options)"

text \<open>
  The trace of a bootstrap, stage by stage: after \<^verbatim>\<open>main\<close> has set OptionsResolved, after
  the continuation has called the adapter, after it has set Ready, after \<^verbatim>\<open>main\<close> has called
  \<^verbatim>\<open>registerPlugin\<close>, after it has called \<^verbatim>\<open>loadPackages\<close>, and at its end. The expected
  trace is the longest stage that the outcomes of the three awaited calls allow.
\<close>

definition trace_resolved :: "appOptions \<Rightarrow> event list" where
  "trace_resolved options =
     [SchemaInitialize (opt_schema options), CodeRuntimeInitialize (codeRuntime_of options),
      PhaseSet OptionsResolved]"

definition trace_called :: "appOptions \<Rightarrow> event list" where
  "trace_called options = trace_resolved options @ [AdapterCall the_renderContext]"

definition trace_ready :: "appOptions \<Rightarrow> props \<Rightarrow> event list" where
  "trace_ready options ro = trace_called options @ [AdapterReturn ro, PhaseSet Ready]"

definition trace_registering :: "appOptions \<Rightarrow> props \<Rightarrow> event list" where
  "trace_registering options ro =
     trace_ready options ro @ [RegisterPlugin (PluginList (plugins_of options))]"

definition trace_loading :: "appOptions \<Rightarrow> props \<Rightarrow> event list" where
  "trace_loading options ro =
     trace_registering options ro @ [RegisterPluginDone, LoadPackages (packages_of options)]"

definition trace_loaded :: "appOptions \<Rightarrow> props \<Rightarrow> event list" where
  "trace_loaded options ro =
     trace_loading options ro @ [LoadPackagesDone, PhaseSet AfterInitPackageLoad]"

definition expected_trace :: "collaborators \<Rightarrow> appOptions \<Rightarrow> renderAdapter \<Rightarrow> event list" where
  "expected_trace svc options f =
     (case f the_renderContext of
        Rejects \<Rightarrow> trace_called options
      | Fulfils ro \<Rightarrow>
          (case registerPlugin svc (PluginList (plugins_of options)) of
             Rejects \<Rightarrow> trace_registering options ro
           | Fulfils _ \<Rightarrow>
               (case loadPackages svc (packages_of options) of
                  Rejects \<Rightarrow> trace_loading options ro
                | Fulfils _ \<Rightarrow> trace_loaded options ro)))"

text \<open>
  Where the continuation and \<^verbatim>\<open>main\<close> stand determines the phase, the render object and
  the trace so far.
\<close>

definition bootstrap_inv ::
  "collaborators \<Rightarrow> appOptions \<Rightarrow> renderAdapter \<Rightarrow> rendererMain \<Rightarrow> bool" where
  "bootstrap_inv svc options f s =
     (adapter s = Some f \<and> initOptions s = Some options \<and>
      (case continuation s of
         AwaitOptionsResolved \<Rightarrow>
           main_at s = AwaitReady (plugins_of options) \<and> phase s = OptionsResolved \<and>
           renderObject s = None \<and> trace s = trace_resolved options
       | AwaitAdapter r \<Rightarrow>
           r = f the_renderContext \<and> main_at s = AwaitReady (plugins_of options) \<and>
           phase s = OptionsResolved \<and> renderObject s = None \<and> trace s = trace_called options
       | ContinuationFailed \<Rightarrow>
           f the_renderContext = Rejects \<and> main_at s = AwaitReady (plugins_of options) \<and>
           phase s = OptionsResolved \<and> renderObject s = None \<and> trace s = trace_called options
       | ContinuationDone \<Rightarrow>
           (case f the_renderContext of
              Rejects \<Rightarrow> False
            | Fulfils ro \<Rightarrow>
                renderObject s = Some ro \<and>
                (case main_at s of
                   MainNotCalled \<Rightarrow> False
                 | AwaitReady pl \<Rightarrow>
                     pl = plugins_of options \<and> phase s = Ready \<and>
                     trace s = trace_ready options ro
                 | AwaitRegisterPlugin r \<Rightarrow>
                     r = registerPlugin svc (PluginList (plugins_of options)) \<and>
                     phase s = Ready \<and> trace s = trace_registering options ro
                 | AwaitLoadPackages r \<Rightarrow>
                     registerPlugin svc (PluginList (plugins_of options)) = Fulfils () \<and>
                     r = loadPackages svc (packages_of options) \<and>
                     phase s = Ready \<and> trace s = trace_loading options ro
                 | MainDone \<Rightarrow>
                     registerPlugin svc (PluginList (plugins_of options)) = Fulfils () \<and>
                     loadPackages svc (packages_of options) = Fulfils () \<and>
                     phase s = AfterInitPackageLoad \<and> trace s = trace_loaded options ro
                 | MainFailed \<Rightarrow>
                     phase s = Ready \<and>
                     (if registerPlugin svc (PluginList (plugins_of options)) = Rejects
                      then trace s = trace_registering options ro
                      else loadPackages svc (packages_of options) = Rejects \<and>
                           trace s = trace_loading options ro)))))"

text \<open>
  An example bootstrap: collaborators whose calls fulfil, the options
  \<^verbatim>\<open>{schema, plugins: [pluginA]}\<close>, an adapter that returns \<^verbatim>\<open>{foo: 1}\<close>, and a schedule that
  resumes every task when it is ready.
\<close>

definition example_services :: collaborators where
  "example_services = \<lparr>registerPlugin = (\<lambda>arg. Fulfils ()), loadPackages = (\<lambda>ps. Fulfils ())\<rparr>"

definition example_options :: appOptions where
  "example_options =
     \<lparr>opt_schema = JObj [(''version'', JStr ''1.0.0'')], opt_mode = JUndefined,
      opt_plugins = Some [JStr ''pluginA''], opt_codeRuntime = JUndefined,
      opt_packages = None\<rparr>"

definition example_adapter :: renderAdapter where
  "example_adapter ctx = Fulfils [(''foo'', JNum 1)]"

definition fair_schedule :: "task list" where
  "fair_schedule = [Continuation, Continuation, Main, Main, Main, Boot, GetApp, Boot]"

text \<open>
  The mode of the application: the option when it is truthy, \<^verbatim>\<open>'production'\<close> otherwise. The
  application object of a bootstrap with given options whose adapter returned \<open>ro\<close>. What
  holds of \<^verbatim>\<open>getApp\<close> and of the returned function along every schedule.
\<close>

definition mode_of :: "appOptions \<Rightarrow> jsval" where
  "mode_of options = (if truthy (opt_mode options) then opt_mode options else JStr ''production'')"

definition expected_app :: "appOptions \<Rightarrow> props \<Rightarrow> application" where
  "expected_app options ro =
     Object_freeze
       (object_literal
          ([(''__options'', InitOptions (Some options)),
            (''mode'', Plain (mode_of options)),
            (''schema'', Handle SchemaService),
            (''packageManager'', Handle PackageManagementService)] @
           map (\<lambda>kv. (fst kv, Plain (snd kv))) ro @
           [(''use'', UseClosure)]))"

definition app_inv :: "appOptions \<Rightarrow> rendererMain \<Rightarrow> bool" where
  "app_inv options s =
     (mode s = mode_of options \<and>
      (\<forall>app. getApp_at s = GetAppDone app \<longrightarrow> main_at s = MainDone \<and> app = build_app s) \<and>
      (\<forall>app. boot_at s = BootDone app \<longrightarrow> getApp_at s = GetAppDone app))"

text \<open>An adapter whose render object has fields named \<open>mode\<close> and \<open>use\<close>.\<close>

definition overriding_adapter :: renderAdapter where
  "overriding_adapter ctx = Fulfils [(''mode'', JStr ''custom''), (''use'', JNum 1)]"

section \<open>The notification loop\<close>

lemma fire_Nil [simp]: "fire [] v s = s"
  by (simp add: fire_def)

lemma fire_Cons [simp]: "fire (w # ws) v s = fire ws v (invoke (resolve w) v s)"
  by (simp add: fire_def)

lemma fire_append [simp]: "fire (ws @ ws') v s = fire ws' v (fire ws v s)"
  by (simp add: fire_def)

lemma invoke_fields [simp]:
  "config (invoke c v s) = config s"
  "waits (invoke c v s) = waits s"
  "strictMode (invoke c v s) = strictMode s"
  "setterValidator (invoke c v s) = setterValidator s"
  "warnings (invoke c v s) = warnings s"
  "calls (invoke c v s) = calls s @ [(c, v)]"
  "length (promises (invoke c v s)) = length (promises s)"
  by (cases c; simp)+

lemma invoke_get [simp]: "get (invoke c v s) key d = get s key d"
  by (simp add: get_def)

lemma fire_fields [simp]:
  "config (fire ws v s) = config s"
  "waits (fire ws v s) = waits s"
  "strictMode (fire ws v s) = strictMode s"
  "setterValidator (fire ws v s) = setterValidator s"
  "warnings (fire ws v s) = warnings s"
  "calls (fire ws v s) = calls s @ map (\<lambda>w. (resolve w, v)) ws"
  "length (promises (fire ws v s)) = length (promises s)"
  by (induction ws arbitrary: s; simp)+

text \<open>
  The loop never reads past the end when it starts within the array. It leaves the
  entries from \<open>i\<close> on as they are, drops the once-entries below \<open>i\<close>, and has called the
  entries below \<open>i\<close> from the highest index down.
\<close>

lemma notifyGot_loop_closed:
  "i \<le> length ws \<Longrightarrow>
   notifyGot_loop invoke key i ws s =
     Inr (filter (\<lambda>w. \<not> once w) (take i ws) @ drop i ws,
          fire (rev (take i ws)) (get s key JUndefined) s)"
proof (induction i arbitrary: ws s)
  case 0
  then show ?case by simp
next
  case (Suc i)
  then have lt: "i < length ws" by simp
  let ?w = "ws ! i"
  let ?ws' = "if once ?w then splice1 ws i else ws"
  have len: "i \<le> length ?ws'" using lt by (auto simp: splice1_def)
  have tk: "take i ?ws' = take i ws" using lt by (simp add: splice1_def)
  have dr: "drop i ?ws' = (if once ?w then drop (Suc i) ws else ?w # drop (Suc i) ws)"
    using lt by (simp add: splice1_def Cons_nth_drop_Suc)
  have "notifyGot_loop invoke key (Suc i) ws s =
        notifyGot_loop invoke key i ?ws' (invoke (resolve ?w) (get s key JUndefined) s)"
    using lt by (simp add: Let_def)
  also have "\<dots> = Inr (filter (\<lambda>w. \<not> once w) (take i ?ws') @ drop i ?ws',
                  fire (rev (take i ?ws')) (get s key JUndefined)
                    (invoke (resolve ?w) (get s key JUndefined) s))"
    using Suc.IH [OF len] by simp
  finally show ?case
    using lt by (simp only: tk dr) (simp add: take_Suc_conv_app_nth)
qed

lemma notifyGot_closed:
  assumes "waits s key = Some stored"
  shows "notifyGot key s =
     Inr ((fire stored (get s key JUndefined) s)
            \<lparr>waits := (waits s)(key := (if filter (\<lambda>w. \<not> once w) stored = [] then None
                                         else Some (rev (filter (\<lambda>w. \<not> once w) stored))))\<rparr>)"
  using assms
  by (simp add: notifyGot_def notifyGot_calling_def notifyGot_loop_closed Let_def rev_filter
      filter_empty_conv)

lemma notifyGot_none: "waits s key = None \<Longrightarrow> notifyGot key s = Inr s"
  by (simp add: notifyGot_def notifyGot_calling_def)

lemma notifyGot_total:
  "notifyGot key s =
     Inr ((fire (waiters s key) (get s key JUndefined) s)
            \<lparr>waits := (waits s)(key := (if persistent (waiters s key) = [] then None
                                         else Some (rev (persistent (waiters s key)))))\<rparr>)"
proof (cases "waits s key")
  case None
  then show ?thesis by (simp add: notifyGot_none waiters_def persistent_def fun_upd_idem)
next
  case (Some stored)
  then show ?thesis by (simp add: notifyGot_closed waiters_def persistent_def)
qed

lemma setWait_waiters:
  "waiters (setWait key c b s) k =
     (if k = key then waiters s key @ [\<lparr>once = b, resolve = c\<rparr>] else waiters s k)"
  by (simp add: setWait_def waiters_def split: option.splits)

lemma setWait_fields [simp]:
  "config (setWait key c b s) = config s"
  "calls (setWait key c b s) = calls s"
  "promises (setWait key c b s) = promises s"
  "warnings (setWait key c b s) = warnings s"
  "strictMode (setWait key c b s) = strictMode s"
  "setterValidator (setWait key c b s) = setterValidator s"
  by (simp_all add: setWait_def split: option.splits)

lemma two_waiters_waiters:
  "waiters two_waiters ''k'' =
     [\<lparr>once = False, resolve = Fn 1\<rparr>, \<lparr>once = False, resolve = Fn 2\<rparr>]"
  by (simp add: two_waiters_def setWait_waiters) (simp add: waiters_def empty_store_def)

lemma two_waiters_get: "get two_waiters ''k'' JUndefined = JUndefined"
  by (simp add: get_def two_waiters_def empty_store_def lodashGet_def castPath_def
      isKey_def obj_read_def plain_object_def chain_read_def Object_prototype_def
      Object_prototype_read_def Object_prototype_names_def)

lemma two_waiters_calls: "calls two_waiters = []"
  by (simp add: two_waiters_def empty_store_def)

section \<open>Writing and reading a key\<close>

lemma obj_write_own:
  "stores_own obj key \<Longrightarrow> obj_write obj key v = obj\<lparr>own := AList.update key v (own obj)\<rparr>"
  by (auto simp: stores_own_def obj_write_def)

lemma obj_read_own_update:
  "obj_read (obj\<lparr>own := AList.update key v (own obj)\<rparr>) k =
     (if k = key then v else obj_read obj k)"
  by (simp add: obj_read_def update_conv' split: option.splits)



lemma stores_own_other [simp]: "key \<noteq> ''__proto__'' \<Longrightarrow> stores_own obj key"
  by (simp add: stores_own_def)


lemma obj_read_write:
  "stores_own obj key \<Longrightarrow>
   obj_read (obj_write obj key v) k = (if k = key then v else obj_read obj k)"
  by (simp add: obj_write_own obj_read_own_update)





lemma set_key_rejected:
  assumes "strictMode s"
    and "setterValidator s key v = JBool False \<or> is_string (setterValidator s key v)"
  shows "set_key key v s =
     Inr (s\<lparr>warnings := warnings s @
            [(warn_message key,
              if truthy (setterValidator s key v) then setterValidator s key v else JStr [])]\<rparr>)"
  using assms by (auto simp: set_key_def Let_def)

lemma set_key_accepted:
  assumes "accepted s key v"
  shows "set_key key v s = notifyGot key (s\<lparr>config := obj_write (config s) key v\<rparr>)"
  using assms by (auto simp: set_key_def Let_def accepted_def)

lemma waiters_config_update [simp]: "waiters (s\<lparr>config := c\<rparr>) k = waiters s k"
  by (simp add: waiters_def)

text \<open>
  An accepted \<^verbatim>\<open>set\<close> in closed form. The waiters are called with \<^verbatim>\<open>get(key)\<close> read after the
  assignment.
\<close>

lemma set_key_accepted_closed:
  assumes "accepted s key v"
  shows "set_key key v s =
     Inr ((fire (waiters s key) (lodashGet (obj_write (config s) key v) key JUndefined)
             (s\<lparr>config := obj_write (config s) key v\<rparr>))
            \<lparr>waits := (waits s)(key := (if persistent (waiters s key) = [] then None
                                         else Some (rev (persistent (waiters s key)))))\<rparr>)"
  by (simp add: set_key_accepted [OF assms] notifyGot_total get_def)

lemma strict_store_simps [simp]:
  "strictMode strict_store" "config strict_store = plain_object []" "calls strict_store = []"
  "waits strict_store = Map.empty"
  "setterValidator strict_store ''x'' v = JBool False"
  "setterValidator strict_store ''y'' v = JBool True"
  "setterValidator strict_store ''z'' v = JStr ''not an option''"
  by (simp_all add: strict_store_def empty_store_def)

section \<open>What an operation leaves alone\<close>




lemma waiters_fire [simp]: "waiters (fire ws v s) k = waiters s k"
  by (simp add: waiters_def)

lemma waiters_waits_update:
  "waiters (s\<lparr>waits := (waits s)(key := x)\<rparr>) k =
     (if k = key then (case x of None \<Rightarrow> [] | Some ws \<Rightarrow> ws) else waiters s k)"
  by (simp add: waiters_def)

lemma waiters_after_notify:
  "waiters (s\<lparr>waits := (waits s)(key := (if persistent ws = [] then None
                                         else Some (rev (persistent ws))))\<rparr>) k =
     (if k = key then rev (persistent ws) else waiters s k)"
  by (simp add: waiters_waits_update)


lemma delWait_loop_closed:
  "i \<le> length ws \<Longrightarrow>
   delWait_loop fn i ws = Inr (filter (\<lambda>w. resolve w \<noteq> fn) (take i ws) @ drop i ws)"
proof (induction i arbitrary: ws)
  case 0
  then show ?case by simp
next
  case (Suc i)
  then have lt: "i < length ws" by simp
  let ?ws' = "if resolve (ws ! i) = fn then splice1 ws i else ws"
  have len: "i \<le> length ?ws'" using lt by (auto simp: splice1_def)
  have tk: "take i ?ws' = take i ws" using lt by (simp add: splice1_def)
  have dr: "drop i ?ws' =
      (if resolve (ws ! i) = fn then drop (Suc i) ws else ws ! i # drop (Suc i) ws)"
    using lt by (simp add: splice1_def Cons_nth_drop_Suc)
  have "delWait_loop fn (Suc i) ws = delWait_loop fn i ?ws'"
    using lt by simp
  also have "\<dots> = Inr (filter (\<lambda>w. resolve w \<noteq> fn) (take i ?ws') @ drop i ?ws')"
    by (rule Suc.IH [OF len])
  finally show ?case
    using lt by (simp only: tk dr) (simp add: take_Suc_conv_app_nth)
qed

lemma delWait_total:
  "delWait key fn s =
     Inr (case waits s key of
            None \<Rightarrow> s
          | Some ws \<Rightarrow>
              s\<lparr>waits := (waits s)(key :=
                   (if filter (\<lambda>w. resolve w \<noteq> fn) ws = [] then None
                    else Some (filter (\<lambda>w. resolve w \<noteq> fn) ws)))\<rparr>)"
  by (simp add: delWait_def delWait_loop_closed split: option.splits)

lemma delWait_waiters:
  "\<exists>s'. delWait key fn s = Inr s' \<and>
        (\<forall>k. waiters s' k =
           (if k = key then filter (\<lambda>w. resolve w \<noteq> fn) (waiters s key) else waiters s k)) \<and>
        config s' = config s \<and> calls s' = calls s \<and> promises s' = promises s \<and>
        warnings s' = warnings s \<and> strictMode s' = strictMode s \<and>
        setterValidator s' = setterValidator s"
  by (cases "waits s key") (auto simp: delWait_total waiters_def)



lemma accepted_cong:
  "strictMode s' = strictMode s \<Longrightarrow> setterValidator s' = setterValidator s \<Longrightarrow>
   accepted s' key v = accepted s key v"
  by (simp add: accepted_def)












section \<open>Promises and subscriptions\<close>



lemma notifyGot_well_formed:
  assumes wf: "well_formed s"
  shows "\<exists>s'. notifyGot key s = Inr s' \<and> well_formed s'"
proof -
  let ?ws = "waiters s key"
  let ?v = "get s key JUndefined"
  let ?s' = "(fire ?ws ?v s)\<lparr>waits := (waits s)(key := (if persistent ?ws = [] then None
                                         else Some (rev (persistent ?ws))))\<rparr>"
  have w: "waiters ?s' k = (if k = key then rev (persistent ?ws) else waiters s k)" for k
    using waiters_after_notify [of "fire ?ws ?v s" key ?ws k] by simp
  have sub: "set (waiters ?s' k) \<subseteq> set (waiters s k)" for k
    unfolding w by (auto simp: persistent_def)
  have "well_formed ?s'"
    unfolding well_formed_def
  proof (intro conjI allI ballI impI)
    fix k w' p assume "w' \<in> set (waiters ?s' k)" "resolve w' = Resolver p"
    then have "w' \<in> set (waiters s k)" using sub by blast
    with wf \<open>resolve w' = Resolver p\<close> show "p < length (promises ?s')"
      by (auto simp: well_formed_def)
  next
    fix x p assume "x \<in> set (calls ?s')" "fst x = Resolver p"
    then show "p < length (promises ?s')"
      using wf by (auto simp: well_formed_def)
  qed
  then show ?thesis by (simp add: notifyGot_total)
qed




lemma set_key_accepted_facts:
  assumes "accepted s key v"
  shows "\<exists>s'. set_key key v s = Inr s' \<and>
              calls s' =
                calls s @ map (\<lambda>w. (resolve w, get s' key JUndefined)) (waiters s key) \<and>
              waiters s' key = rev (persistent (waiters s key)) \<and>
              (\<forall>k. k \<noteq> key \<longrightarrow> waiters s' k = waiters s k) \<and>
              config s' = obj_write (config s) key v \<and>
              promises s' = promises (fire (waiters s key) (get s' key JUndefined) s) \<and>
              warnings s' = warnings s \<and>
              strictMode s' = strictMode s \<and> setterValidator s' = setterValidator s"
proof -
  let ?s0 = "s\<lparr>config := obj_write (config s) key v\<rparr>"
  let ?ws = "waiters s key"
  let ?g = "lodashGet (obj_write (config s) key v) key JUndefined"
  have w: "waiters ((fire ?ws ?g ?s0)\<lparr>waits := (waits s)(key := (if persistent ?ws = [] then None
             else Some (rev (persistent ?ws))))\<rparr>) k =
           (if k = key then rev (persistent ?ws) else waiters s k)" for k
    using waiters_after_notify [of "fire ?ws ?g ?s0" key ?ws k] by simp
  have pr: "promises (fire ws g (s\<lparr>config := c\<rparr>)) = promises (fire ws g s)" for ws g c
  proof (induction ws arbitrary: s)
    case Nil
    then show ?case by simp
  next
    case (Cons a ws)
    have "invoke (resolve a) g (s\<lparr>config := c\<rparr>) = (invoke (resolve a) g s)\<lparr>config := c\<rparr>"
      by (cases "resolve a") simp_all
    then show ?case using Cons.IH by simp
  qed
  show ?thesis
    unfolding set_key_accepted_closed [OF assms] by (simp add: w get_def pr)
qed



text \<open>The configuration \<^verbatim>\<open>{}\<close> reads as \<^verbatim>\<open>Object.prototype\<close> does.\<close>

lemma obj_read_empty:
  "obj_read (plain_object []) k = Object_prototype_read Object_prototype k"
  by (simp add: obj_read_def plain_object_def chain_read_def Object_prototype_def)


lemma obj_write_plain:
  "key \<noteq> ''__proto__'' \<Longrightarrow>
   obj_write (plain_object ps) key v = plain_object (AList.update key v ps)"
  by (simp add: obj_write_def plain_object_def)


lemma onGot_closed:
  "onGot key cb s =
     (delWait key cb,
      setWait key cb False (if has s key then invoke cb (obj_read (config s) key) s else s))"
  by (simp add: onGot_def has_def Let_def)

lemma waiters_invoke [simp]: "waiters (invoke c v s) k = waiters s k"
  by (simp add: waiters_def)



section \<open>Dotted keys\<close>

lemma split_dots_segment:
  "CHR ''.'' \<notin> set p \<Longrightarrow> split_dots acc p = [rev acc @ p]"
  by (induction p arbitrary: acc) auto

lemma split_dots_segment_dot:
  "CHR ''.'' \<notin> set p \<Longrightarrow>
   split_dots acc (p @ CHR ''.'' # rest) = (rev acc @ p) # split_dots [] rest"
  by (induction p arbitrary: acc) auto

lemma split_dots_dotted:
  "\<forall>x \<in> set (p # ps). CHR ''.'' \<notin> set x \<Longrightarrow> split_dots [] (dotted (p # ps)) = p # ps"
proof (induction ps arbitrary: p)
  case Nil
  then show ?case by (simp add: split_dots_segment)
next
  case (Cons q ps)
  then show ?case by (simp add: split_dots_segment_dot)
qed

lemma dotted_has_dot: "CHR ''.'' \<in> set (dotted (p # q # ps))"
  by simp

lemma baseGet_own_path: "own_path w path = Some v \<Longrightarrow> baseGet w path = v"
proof (induction w path rule: own_path.induct)
  case (1 v)
  then show ?case by simp
next
  case (2 ps p path)
  then show ?case
    by (auto simp: obj_read_def plain_object_def split: option.splits)
qed simp_all

lemma obj_read_absent: "\<not> obj_in key obj \<Longrightarrow> obj_read obj key = JUndefined"
  by (cases "proto obj")
     (auto simp: obj_in_def obj_read_def chain_in_def chain_read_def Object_prototype_read_def
       Object_prototype_names_def split: option.splits)

lemma lodashGet_literal:
  "isKey key obj \<Longrightarrow>
   lodashGet obj key d = (if obj_read obj key = JUndefined then d else obj_read obj key)"
  by (simp add: lodashGet_def castPath_def)

lemma lodashGet_dotted:
  assumes "\<forall>x \<in> set (p # q # ps). CHR ''.'' \<notin> set x"
    and "\<not> obj_in (dotted (p # q # ps)) obj"
  shows "lodashGet obj (dotted (p # q # ps)) d =
     (if baseGet (obj_read obj p) (q # ps) = JUndefined then d
      else baseGet (obj_read obj p) (q # ps))"
proof -
  have "\<not> isKey (dotted (p # q # ps)) obj"
    using assms(2) dotted_has_dot [of p q ps] unfolding isKey_def by blast
  then have "castPath (dotted (p # q # ps)) obj = p # q # ps"
    using split_dots_dotted [OF assms(1)] by (simp add: castPath_def stringToPath_def)
  then show ?thesis by (simp add: lodashGet_def Let_def del: baseGet.simps dotted.simps)
qed

section \<open>Setting many keys\<close>

lemma set_key_total:
  "\<exists>s'. set_key key v s = Inr s' \<and> strictMode s' = strictMode s \<and>
        setterValidator s' = setterValidator s \<and>
        config s' = (if accepted s key v then obj_write (config s) key v else config s)"
proof (cases "accepted s key v")
  case True
  then show ?thesis using set_key_accepted_facts [OF True] by auto
next
  case False
  then have r: "strictMode s"
    "setterValidator s key v = JBool False \<or> is_string (setterValidator s key v)"
    by (auto simp: accepted_def)
  show ?thesis unfolding set_key_rejected [OF r] using False by simp
qed

lemma forEach_set_run:
  "forEach_set cfg keys s = run (map (\<lambda>key. Set key (js_read cfg key)) keys) s"
  by (induction keys arbitrary: s) (simp_all split: sum.splits)

text \<open>
  The configuration after the keys have been set one by one: the accepted ones are written
  in turn, the others skipped. The validator and the mode do not change on the way.
\<close>

lemma forEach_set_config:
  "\<exists>s'. forEach_set cfg keys s = Inr s' \<and> strictMode s' = strictMode s \<and>
        setterValidator s' = setterValidator s \<and>
        config s' =
          foldl (\<lambda>obj key. if accepted s key (js_read cfg key)
                            then obj_write obj key (js_read cfg key) else obj)
            (config s) keys"
proof (induction keys arbitrary: s)
  case Nil
  then show ?case by simp
next
  case (Cons key keys)
  obtain s1 where s1: "set_key key (js_read cfg key) s = Inr s1"
    "strictMode s1 = strictMode s" "setterValidator s1 = setterValidator s"
    "config s1 = (if accepted s key (js_read cfg key)
                  then obj_write (config s) key (js_read cfg key) else config s)"
    using set_key_total [of key "js_read cfg key" s] by auto
  have a: "accepted s1 = accepted s"
    using s1(2,3) by (simp add: accepted_def fun_eq_iff)
  obtain s' where s': "forEach_set cfg keys s1 = Inr s'"
    "strictMode s' = strictMode s1" "setterValidator s' = setterValidator s1"
    "config s' =
       foldl (\<lambda>obj key. if accepted s1 key (js_read cfg key)
                         then obj_write obj key (js_read cfg key) else obj)
         (config s1) keys"
    using Cons.IH [of s1] by auto
  show ?case
    using s1 s' unfolding a by simp
qed

text \<open>Reading a key after such a sequence of writes, none of them of \<^verbatim>\<open>__proto__\<close>.\<close>

lemma obj_read_foldl_write:
  assumes "''__proto__'' \<notin> set keys"
  shows "obj_read (foldl (\<lambda>obj key. if acc key then obj_write obj key (val key) else obj)
                     obj keys) k =
         (if k \<in> set keys \<and> acc k then val k else obj_read obj k)"
  using assms
proof (induction keys arbitrary: obj)
  case Nil
  then show ?case by simp
next
  case (Cons key keys)
  then have ne: "key \<noteq> ''__proto__''" and rest: "''__proto__'' \<notin> set keys" by auto
  show ?case
    using Cons.IH [OF rest] ne by (auto simp: obj_read_write)
qed

section \<open>Every store that can arise is well formed\<close>

text \<open>
  The constructor builds a well-formed store, and no operation throws on a well-formed
  store or leaves it ill formed.
\<close>

lemma new_Configuration_well_formed:
  assumes "new_Configuration cfg options = Inr s"
  shows "well_formed s"
proof -
  have "waits s = Map.empty \<and> calls s = [] \<and> promises s = []"
    using assms
    by (auto simp: new_Configuration_def invariant_def Let_def
        split: if_splits option.splits supplied.splits sum.splits)
  then show ?thesis by (simp add: well_formed_def waiters_def)
qed

lemma set_key_well_formed:
  assumes wf: "well_formed s"
  shows "\<exists>s'. set_key key v s = Inr s' \<and> well_formed s' \<and>
              strictMode s' = strictMode s \<and> setterValidator s' = setterValidator s"
proof (cases "accepted s key v")
  case True
  let ?s0 = "s\<lparr>config := obj_write (config s) key v\<rparr>"
  have wf0: "well_formed ?s0" using wf by (simp add: well_formed_def)
  obtain s' where s': "notifyGot key ?s0 = Inr s'" "well_formed s'"
    using notifyGot_well_formed [OF wf0] by auto
  have "strictMode s' = strictMode s \<and> setterValidator s' = setterValidator s"
    using set_key_accepted_facts [OF True] s'(1) by (auto simp: set_key_accepted [OF True])
  with s' True show ?thesis by (simp add: set_key_accepted)
next
  case False
  then have r: "strictMode s"
    "setterValidator s key v = JBool False \<or> is_string (setterValidator s key v)"
    by (auto simp: accepted_def)
  show ?thesis
    unfolding set_key_rejected [OF r] using wf by (simp add: well_formed_def waiters_def)
qed

lemma forEach_set_well_formed:
  "well_formed s \<Longrightarrow> \<exists>s'. forEach_set cfg keys s = Inr s' \<and> well_formed s'"
proof (induction keys arbitrary: s)
  case Nil
  then show ?case by simp
next
  case (Cons key keys)
  obtain s1 where s1: "set_key key (js_read cfg key) s = Inr s1" "well_formed s1"
    using set_key_well_formed [OF Cons.prems] by blast
  from Cons.IH [OF s1(2)] s1(1) show ?case by simp
qed

lemma setWait_well_formed:
  assumes "well_formed s" "\<forall>p. c = Resolver p \<longrightarrow> p < length (promises s)"
  shows "well_formed (setWait key c b s)"
  using assms by (auto simp: well_formed_def setWait_waiters)

lemma onceGot_well_formed:
  assumes wf: "well_formed s"
  shows "well_formed (snd (onceGot key s))"
proof (cases "obj_read (config s) key \<noteq> JUndefined")
  case True
  then show ?thesis
    using wf by (auto simp: onceGot_def Let_def well_formed_def waiters_def less_SucI)
next
  case False
  let ?s0 = "s\<lparr>promises := promises s @ [Pending]\<rparr>"
  have "well_formed ?s0"
    using wf by (auto simp: well_formed_def waiters_def less_SucI)
  then have "well_formed (setWait key (Resolver (length (promises s))) True ?s0)"
    by (rule setWait_well_formed) simp
  then show ?thesis using False by (simp add: onceGot_def Let_def)
qed

lemma onGot_well_formed:
  assumes wf: "well_formed s"
  shows "well_formed (snd (onGot key (Fn n) s))"
proof -
  let ?s1 = "if has s key then invoke (Fn n) (obj_read (config s) key) s else s"
  have "well_formed ?s1" using wf by (auto simp: well_formed_def waiters_def)
  then have "well_formed (setWait key (Fn n) False ?s1)"
    by (rule setWait_well_formed) simp
  then show ?thesis by (simp add: onGot_closed)
qed

lemma delWait_well_formed:
  assumes wf: "well_formed s"
  shows "\<exists>s'. delWait key fn s = Inr s' \<and> well_formed s'"
proof -
  obtain s' where s': "delWait key fn s = Inr s'"
    "\<forall>k. waiters s' k =
       (if k = key then filter (\<lambda>w. resolve w \<noteq> fn) (waiters s key) else waiters s k)"
    "calls s' = calls s" "promises s' = promises s"
    using delWait_waiters [of key fn s] by auto
  have "well_formed s'"
    using wf unfolding well_formed_def by (auto simp: s')
  with s'(1) show ?thesis by simp
qed

lemma exec_well_formed:
  assumes wf: "well_formed s"
  shows "\<exists>s'. exec x s = Inr s' \<and> well_formed s'"
proof (cases x)
  case (Set key v)
  then show ?thesis using set_key_well_formed [OF wf, of key v] by auto
next
  case (SetConfig cfg)
  then show ?thesis
    using forEach_set_well_formed [OF wf] wf by (auto simp: setConfig_def)
next
  case (OnceGot key)
  then show ?thesis using onceGot_well_formed [OF wf] by simp
next
  case (OnGot key n)
  then show ?thesis using onGot_well_formed [OF wf] by simp
next
  case (NotifyGot key)
  then show ?thesis using notifyGot_well_formed [OF wf] by simp
next
  case (SetWait key n b)
  then show ?thesis using setWait_well_formed [OF wf, of "Fn n"] by simp
next
  case (DelWait key n)
  then show ?thesis using delWait_well_formed [OF wf] by simp
qed

lemma run_well_formed:
  "well_formed s \<Longrightarrow> \<exists>s'. run xs s = Inr s' \<and> well_formed s'"
proof (induction xs arbitrary: s)
  case Nil
  then show ?case by simp
next
  case (Cons x xs)
  obtain s1 where s1: "exec x s = Inr s1" "well_formed s1"
    using exec_well_formed [OF Cons.prems] by blast
  from Cons.IH [OF s1(2)] s1(1) show ?case by simp
qed

section \<open>The bootstrap sequence\<close>

lemma boot_call_inv: "bootstrap_inv svc options f (boot_call f options new_RendererMain)"
  by (simp add: bootstrap_inv_def boot_call_def main_call_def new_RendererMain_def Let_def
      set_phase_def plugins_of_def trace_resolved_def codeRuntime_of_def)

lemma continuation_inv:
  assumes "bootstrap_inv svc options f s" "resume_continuation s = Some s'"
  shows "bootstrap_inv svc options f s'"
proof (cases "continuation s")
  case AwaitOptionsResolved
  then show ?thesis
    using assms
    by (auto simp: bootstrap_inv_def resume_continuation_def trace_called_def
        split: if_splits)
next
  case (AwaitAdapter r)
  then show ?thesis
    using assms
    by (auto simp: bootstrap_inv_def resume_continuation_def set_phase_def trace_ready_def
        split: outcome.splits)
next
  case ContinuationDone
  then show ?thesis using assms by (simp add: resume_continuation_def)
next
  case ContinuationFailed
  then show ?thesis using assms by (simp add: resume_continuation_def)
qed

lemma main_inv:
  assumes "bootstrap_inv svc options f s" "resume_main svc s = Some s'"
  shows "bootstrap_inv svc options f s'"
proof (cases "continuation s")
  case ContinuationDone
  then obtain ro where ro: "f the_renderContext = Fulfils ro"
    using assms(1) by (auto simp: bootstrap_inv_def split: outcome.splits)
  show ?thesis
  proof (cases "main_at s")
    case MainNotCalled
    then show ?thesis using assms by (simp add: resume_main_def)
  next
    case (AwaitReady pl)
    then show ?thesis
      using assms ContinuationDone ro
      by (auto simp: bootstrap_inv_def resume_main_def call_registerPlugin_def
          trace_registering_def split: if_splits)
  next
    case (AwaitRegisterPlugin r)
    then show ?thesis
      using assms ContinuationDone ro
      by (auto simp: bootstrap_inv_def resume_main_def trace_loading_def packages_of_def
          Let_def split: outcome.splits)
  next
    case (AwaitLoadPackages r)
    then show ?thesis
      using assms ContinuationDone ro
      by (auto simp: bootstrap_inv_def resume_main_def set_phase_def trace_loaded_def
          split: outcome.splits)
  next
    case MainDone
    then show ?thesis using assms by (simp add: resume_main_def)
  next
    case MainFailed
    then show ?thesis using assms by (simp add: resume_main_def)
  qed
next
  case AwaitOptionsResolved
  then show ?thesis
    using assms by (auto simp: bootstrap_inv_def resume_main_def reached_def)
next
  case (AwaitAdapter r)
  then show ?thesis
    using assms by (auto simp: bootstrap_inv_def resume_main_def reached_def)
next
  case ContinuationFailed
  then show ?thesis
    using assms by (auto simp: bootstrap_inv_def resume_main_def reached_def)
qed

lemma bootstrap_inv_cong:
  assumes "adapter s' = adapter s" "initOptions s' = initOptions s"
    "continuation s' = continuation s" "main_at s' = main_at s" "phase s' = phase s"
    "trace s' = trace s" "renderObject s' = renderObject s"
  shows "bootstrap_inv svc options f s' = bootstrap_inv svc options f s"
  unfolding bootstrap_inv_def assms by (rule refl)

lemma getApp_inv:
  assumes "bootstrap_inv svc options f s" "resume_getApp s = Some s'"
  shows "bootstrap_inv svc options f s'"
proof -
  have "s' = s\<lparr>getApp_at := GetAppDone (build_app s)\<rparr>"
    using assms(2) by (auto simp: resume_getApp_def split: getApp_pc.splits if_splits)
  then have "bootstrap_inv svc options f s' = bootstrap_inv svc options f s"
    by (intro bootstrap_inv_cong) simp_all
  with assms(1) show ?thesis by simp
qed

lemma boot_inv:
  assumes "bootstrap_inv svc options f s" "resume_boot s = Some s'"
  shows "bootstrap_inv svc options f s'"
proof -
  have "bootstrap_inv svc options f s' = bootstrap_inv svc options f s"
    using assms(2)
    by (intro bootstrap_inv_cong)
       (auto simp: resume_boot_def getApp_call_def
         split: boot_pc.splits main_pc.splits getApp_pc.splits)
  with assms(1) show ?thesis by simp
qed

lemma step_inv:
  assumes "bootstrap_inv svc options f s" "step svc t s = Some s'"
  shows "bootstrap_inv svc options f s'"
proof (cases t)
  case Continuation
  then show ?thesis using assms by (simp add: continuation_inv)
next
  case Main
  then show ?thesis using assms by (simp add: main_inv)
next
  case GetApp
  then show ?thesis using assms by (simp add: getApp_inv)
next
  case Boot
  then show ?thesis using assms by (simp add: boot_inv)
qed

lemma run_tasks_inv:
  "bootstrap_inv svc options f s \<Longrightarrow> bootstrap_inv svc options f (run_tasks svc sched s)"
proof (induction sched arbitrary: s)
  case Nil
  then show ?case by simp
next
  case (Cons t sched)
  show ?case
  proof (cases "step svc t s")
    case None
    then show ?thesis using Cons by simp
  next
    case (Some s')
    then have "bootstrap_inv svc options f s'" using Cons.prems by (rule step_inv [rotated])
    then show ?thesis using Some Cons.IH by simp
  qed
qed

lemma trace_stage_prefixes:
  "prefix (trace_resolved options) (trace_called options)"
  "prefix (trace_called options) (trace_ready options ro)"
  "prefix (trace_ready options ro) (trace_registering options ro)"
  "prefix (trace_registering options ro) (trace_loading options ro)"
  "prefix (trace_loading options ro) (trace_loaded options ro)"
  by (simp_all add: trace_called_def trace_ready_def trace_registering_def trace_loading_def
      trace_loaded_def)

lemma trace_stage_prefix_loaded:
  "prefix (trace_resolved options) (trace_loaded options ro)"
  "prefix (trace_called options) (trace_loaded options ro)"
  "prefix (trace_ready options ro) (trace_loaded options ro)"
  "prefix (trace_registering options ro) (trace_loaded options ro)"
  "prefix (trace_loading options ro) (trace_loaded options ro)"
  by (simp_all add: trace_called_def trace_ready_def trace_registering_def trace_loading_def
      trace_loaded_def)

lemma trace_stage_prefix_loading:
  "prefix (trace_resolved options) (trace_loading options ro)"
  "prefix (trace_called options) (trace_loading options ro)"
  "prefix (trace_ready options ro) (trace_loading options ro)"
  "prefix (trace_registering options ro) (trace_loading options ro)"
  by (simp_all add: trace_called_def trace_ready_def trace_registering_def trace_loading_def)

lemma trace_stage_prefix_registering:
  "prefix (trace_resolved options) (trace_registering options ro)"
  "prefix (trace_called options) (trace_registering options ro)"
  "prefix (trace_ready options ro) (trace_registering options ro)"
  by (simp_all add: trace_called_def trace_ready_def trace_registering_def)

lemma inv_prefix:
  assumes "bootstrap_inv svc options f s"
  shows "prefix (trace s) (expected_trace svc options f)"
proof (cases "f the_renderContext")
  case Rejects
  then show ?thesis
    using assms
    by (auto simp: bootstrap_inv_def expected_trace_def trace_stage_prefixes
        split: continuation_pc.splits)
next
  case (Fulfils ro)
  show ?thesis
  proof (cases "continuation s")
    case ContinuationDone
    then show ?thesis
      using assms Fulfils
      by (cases "main_at s")
         (auto simp: bootstrap_inv_def expected_trace_def trace_stage_prefixes
           trace_stage_prefix_loaded trace_stage_prefix_loading trace_stage_prefix_registering
           split: outcome.splits if_splits)
  next
    case AwaitOptionsResolved
    then show ?thesis
      using assms Fulfils
      by (auto simp: bootstrap_inv_def expected_trace_def
           trace_stage_prefix_loaded trace_stage_prefix_loading trace_stage_prefix_registering
           split: outcome.splits)
  next
    case (AwaitAdapter r)
    then show ?thesis
      using assms Fulfils
      by (auto simp: bootstrap_inv_def expected_trace_def
           trace_stage_prefix_loaded trace_stage_prefix_loading trace_stage_prefix_registering
           split: outcome.splits)
  next
    case ContinuationFailed
    then show ?thesis using assms Fulfils by (simp add: bootstrap_inv_def)
  qed
qed

lemma inv_done:
  assumes "bootstrap_inv svc options f s" "main_at s = MainDone"
  shows "\<exists>ro. f the_renderContext = Fulfils ro \<and> renderObject s = Some ro \<and>
              phase s = AfterInitPackageLoad \<and> trace s = trace_loaded options ro"
  using assms
  by (auto simp: bootstrap_inv_def split: continuation_pc.splits outcome.splits)

lemma inv_ready:
  assumes "bootstrap_inv svc options f s" "reached (phase s) Ready"
  shows "\<exists>ro. f the_renderContext = Fulfils ro \<and> renderObject s = Some ro \<and>
              prefix (trace_ready options ro) (trace s)"
proof (cases "continuation s")
  case ContinuationDone
  then obtain ro where ro: "f the_renderContext = Fulfils ro" "renderObject s = Some ro"
    using assms(1) by (auto simp: bootstrap_inv_def split: outcome.splits)
  have "prefix (trace_ready options ro) (trace s)"
    using assms(1) ContinuationDone ro(1)
    by (cases "main_at s")
       (auto simp: bootstrap_inv_def trace_stage_prefix_loaded trace_stage_prefix_loading
         trace_stage_prefix_registering split: if_splits)
  with ro show ?thesis by blast
qed (use assms in \<open>auto simp: bootstrap_inv_def reached_def\<close>)

lemma inv_not_ready:
  assumes "bootstrap_inv svc options f s" "\<not> reached (phase s) Ready"
  shows "renderObject s = None \<and> prefix (trace s) (trace_called options)"
proof (cases "continuation s")
  case ContinuationDone
  then show ?thesis
    using assms
    by (cases "main_at s")
       (auto simp: bootstrap_inv_def reached_def split: outcome.splits)
qed (use assms in \<open>auto simp: bootstrap_inv_def trace_stage_prefixes\<close>)

lemma trace_ready_events:
  "trace_ready options ro =
     [SchemaInitialize (opt_schema options), CodeRuntimeInitialize (codeRuntime_of options),
      PhaseSet OptionsResolved, AdapterCall the_renderContext, AdapterReturn ro,
      PhaseSet Ready]"
  by (simp add: trace_ready_def trace_called_def trace_resolved_def)

lemma trace_called_events:
  "trace_called options =
     [SchemaInitialize (opt_schema options), CodeRuntimeInitialize (codeRuntime_of options),
      PhaseSet OptionsResolved, AdapterCall the_renderContext]"
  by (simp add: trace_called_def trace_resolved_def)

lemma trace_loaded_events:
  "trace_loaded options ro =
     [SchemaInitialize (opt_schema options), CodeRuntimeInitialize (codeRuntime_of options),
      PhaseSet OptionsResolved, AdapterCall the_renderContext, AdapterReturn ro,
      PhaseSet Ready, RegisterPlugin (PluginList (plugins_of options)), RegisterPluginDone,
      LoadPackages (packages_of options), LoadPackagesDone, PhaseSet AfterInitPackageLoad]"
  by (simp add: trace_loaded_def trace_loading_def trace_registering_def trace_ready_def
      trace_called_def trace_resolved_def)

lemma run_fair:
  assumes "f the_renderContext = Fulfils ro"
    "registerPlugin svc (PluginList (plugins_of options)) = Fulfils ()"
    "loadPackages svc (packages_of options) = Fulfils ()"
  shows "main_at (run_tasks svc [Continuation, Continuation, Main, Main, Main]
           (boot_call f options new_RendererMain)) = MainDone"
  using assms
  by (simp add: boot_call_def main_call_def new_RendererMain_def Let_def set_phase_def
      resume_continuation_def resume_main_def reached_def call_registerPlugin_def
      plugins_of_def packages_of_def)

section \<open>The application object\<close>

lemma foldl_update_map_of:
  "map_of (foldl (\<lambda>acc kv. AList.update (fst kv) (snd kv) acc) acc kvs) k =
     (case map_of (rev kvs) k of None \<Rightarrow> map_of acc k | Some v \<Rightarrow> Some v)"
proof (induction kvs arbitrary: acc)
  case Nil
  then show ?case by simp
next
  case (Cons kv kvs)
  show ?case
    by (simp add: Cons.IH update_conv' map_add_def split: option.splits)
qed

lemma object_literal_map_of: "map_of (object_literal kvs) k = map_of (rev kvs) k"
  by (simp add: object_literal_def foldl_update_map_of split: option.splits)

lemma app_read_build_app:
  "app_read (build_app s) k =
     map_of (rev ([(''__options'', InitOptions (initOptions s)),
            (''mode'', Plain (mode s)),
            (''schema'', Handle SchemaService),
            (''packageManager'', Handle PackageManagementService)] @
           spread (renderObject s) @
           [(''use'', UseClosure)])) k"
  by (simp only: app_read_def build_app_def Object_freeze_def object_literal_map_of
      application.simps)

lemma build_app_cong:
  "initOptions s' = initOptions s \<Longrightarrow> mode s' = mode s \<Longrightarrow> renderObject s' = renderObject s \<Longrightarrow>
   build_app s' = build_app s"
  by (simp add: build_app_def)

lemma inv_phase_loaded:
  assumes "bootstrap_inv svc options f s" "reached (phase s) AfterInitPackageLoad"
  shows "main_at s = MainDone"
proof (cases "continuation s")
  case ContinuationDone
  then show ?thesis
    using assms
    by (cases "main_at s")
       (auto simp: bootstrap_inv_def reached_def split: outcome.splits)
qed (use assms in \<open>auto simp: bootstrap_inv_def reached_def\<close>)

lemma continuation_app_inv:
  assumes "bootstrap_inv svc options f s" "app_inv options s" "resume_continuation s = Some s'"
  shows "app_inv options s'"
proof -
  have nd: "main_at s \<noteq> MainDone"
    using assms(1,3)
    by (auto simp: bootstrap_inv_def resume_continuation_def split: continuation_pc.splits)
  have same: "getApp_at s' = getApp_at s \<and> boot_at s' = boot_at s \<and> mode s' = mode s \<and>
      main_at s' = main_at s"
    using assms(3)
    by (auto simp: resume_continuation_def set_phase_def
        split: continuation_pc.splits if_splits option.splits outcome.splits)
  show ?thesis
    using assms(2) nd same by (auto simp: app_inv_def)
qed

lemma main_app_inv:
  assumes "app_inv options s" "resume_main svc s = Some s'"
  shows "app_inv options s'"
proof -
  have nd: "main_at s \<noteq> MainDone"
    using assms(2) by (auto simp: resume_main_def)
  have same: "getApp_at s' = getApp_at s \<and> boot_at s' = boot_at s \<and> mode s' = mode s"
    using assms(2)
    by (auto simp: resume_main_def set_phase_def call_registerPlugin_def Let_def
        split: main_pc.splits if_splits option.splits outcome.splits)
  show ?thesis
    using assms(1) nd same by (auto simp: app_inv_def)
qed

lemma getApp_app_inv:
  assumes "bootstrap_inv svc options f s" "app_inv options s" "resume_getApp s = Some s'"
  shows "app_inv options s'"
proof -
  have s': "s' = s\<lparr>getApp_at := GetAppDone (build_app s)\<rparr>"
    and r: "reached (phase s) AfterInitPackageLoad"
    and w: "getApp_at s = AwaitAfterInitPackageLoad"
    using assms(3) by (auto simp: resume_getApp_def split: getApp_pc.splits if_splits)
  have d: "main_at s = MainDone" by (rule inv_phase_loaded [OF assms(1) r])
  have b: "build_app s' = build_app s" unfolding s' by (simp add: build_app_def)
  have nb: "boot_at s = BootDone app \<Longrightarrow> False" for app
    using assms(2) w by (auto simp: app_inv_def)
  show ?thesis
    unfolding app_inv_def b using assms(2) d nb by (auto simp: s' app_inv_def)
qed

lemma boot_app_inv:
  assumes "app_inv options s" "resume_boot s = Some s'"
  shows "app_inv options s'"
  using assms
  by (auto simp: app_inv_def resume_boot_def getApp_call_def build_app_def
      split: boot_pc.splits main_pc.splits getApp_pc.splits)

lemma step_app_inv:
  assumes "bootstrap_inv svc options f s" "app_inv options s" "step svc t s = Some s'"
  shows "app_inv options s'"
proof (cases t)
  case Continuation
  then show ?thesis using assms by (simp add: continuation_app_inv)
next
  case Main
  then show ?thesis using assms by (simp add: main_app_inv)
next
  case GetApp
  then show ?thesis using assms by (simp add: getApp_app_inv)
next
  case Boot
  then show ?thesis using assms by (simp add: boot_app_inv)
qed

lemma run_tasks_app_inv:
  "bootstrap_inv svc options f s \<Longrightarrow> app_inv options s \<Longrightarrow>
   app_inv options (run_tasks svc sched s)"
proof (induction sched arbitrary: s)
  case Nil
  then show ?case by simp
next
  case (Cons t sched)
  show ?case
  proof (cases "step svc t s")
    case None
    then show ?thesis using Cons by simp
  next
    case (Some s')
    have "bootstrap_inv svc options f s'" by (rule step_inv [OF Cons.prems(1) Some])
    moreover have "app_inv options s'" by (rule step_app_inv [OF Cons.prems Some])
    ultimately show ?thesis using Some Cons.IH by simp
  qed
qed

lemma boot_call_app_inv: "app_inv options (boot_call f options new_RendererMain)"
  by (simp add: app_inv_def boot_call_def main_call_def new_RendererMain_def Let_def
      set_phase_def mode_of_def)

lemma boot_returns:
  assumes "boot_at (run_tasks svc sched (boot_call f options new_RendererMain)) = BootDone app"
  shows "\<exists>ro. f the_renderContext = Fulfils ro \<and> app = expected_app options ro"
proof -
  let ?s = "run_tasks svc sched (boot_call f options new_RendererMain)"
  have inv: "bootstrap_inv svc options f ?s" by (rule run_tasks_inv [OF boot_call_inv])
  have ainv: "app_inv options ?s" by (rule run_tasks_app_inv [OF boot_call_inv boot_call_app_inv])
  have g: "getApp_at ?s = GetAppDone app" "main_at ?s = MainDone" "app = build_app ?s"
    "mode ?s = mode_of options"
    using ainv assms by (auto simp: app_inv_def)
  obtain ro where ro: "f the_renderContext = Fulfils ro" "renderObject ?s = Some ro"
    using inv_done [OF inv g(2)] by auto
  have io: "initOptions ?s = Some options" using inv by (simp add: bootstrap_inv_def)
  have "build_app ?s = expected_app options ro"
    by (simp add: build_app_def expected_app_def ro(2) io g(4) spread_def)
  with ro g(3) show ?thesis by auto
qed

lemma map_of_rev_distinct:
  assumes "distinct (map fst xs)"
  shows "map_of (rev xs) k = map_of xs k"
proof (cases "map_of xs k")
  case None
  then have "k \<notin> fst ` set xs" by (simp add: map_of_eq_None_iff)
  then have "map_of (rev xs) k = None" by (simp add: map_of_eq_None_iff)
  with None show ?thesis by simp
next
  case (Some v)
  then have "(k, v) \<in> set (rev xs)" using assms by simp
  moreover have "distinct (map fst (rev xs))" using assms by (simp add: rev_map [symmetric])
  ultimately have "map_of (rev xs) k = Some v" by (simp only: map_of_eq_Some_iff)
  with Some show ?thesis by simp
qed

lemma app_read_expected_app:
  "app_read (expected_app options ro) k =
     (if k = ''use'' then Some UseClosure
      else case map_of (rev (map (\<lambda>kv. (fst kv, Plain (snd kv))) ro)) k of
             Some v \<Rightarrow> Some v
           | None \<Rightarrow>
               map_of [(''packageManager'', Handle PackageManagementService),
                       (''schema'', Handle SchemaService),
                       (''mode'', Plain (mode_of options)),
                       (''__options'', InitOptions (Some options))] k)"
  by (simp add: app_read_def expected_app_def Object_freeze_def object_literal_map_of
      map_add_def split: option.splits)

lemma map_of_spread:
  "map_of (map (\<lambda>kv. (fst kv, Plain (snd kv))) ro) k = map_option Plain (map_of ro k)"
  by (induction ro) auto

lemma app_read_render_field:
  assumes "distinct (map fst ro)" "k \<noteq> ''use''" "map_of ro k = Some v"
  shows "app_read (expected_app options ro) k = Some (Plain v)"
proof -
  have d: "distinct (map fst (map (\<lambda>kv. (fst kv, Plain (snd kv))) ro))"
    using assms(1) by (simp add: comp_def)
  have "map_of (rev (map (\<lambda>kv. (fst kv, Plain (snd kv))) ro)) k = Some (Plain v)"
    by (simp add: map_of_rev_distinct [OF d] map_of_spread assms(3))
  then show ?thesis using assms(2) by (simp add: app_read_expected_app)
qed

lemma app_read_own_field:
  assumes "k \<notin> fst ` set ro" "k \<noteq> ''use''"
  shows "app_read (expected_app options ro) k =
     map_of [(''packageManager'', Handle PackageManagementService),
             (''schema'', Handle SchemaService),
             (''mode'', Plain (mode_of options)),
             (''__options'', InitOptions (Some options))] k"
proof -
  have "k \<notin> fst ` set (rev (map (\<lambda>kv. (fst kv, Plain (snd kv))) ro))"
    using assms(1) by (auto simp: image_iff)
  then have "map_of (rev (map (\<lambda>kv. (fst kv, Plain (snd kv))) ro)) k = None"
    unfolding map_of_eq_None_iff .
  then show ?thesis using assms(2) by (simp add: app_read_expected_app)
qed

lemma fair_boot:
  assumes "f the_renderContext = Fulfils ro"
    "registerPlugin svc (PluginList (plugins_of options)) = Fulfils ()"
    "loadPackages svc (packages_of options) = Fulfils ()"
  shows "\<exists>app. boot_at (run_tasks svc fair_schedule (boot_call f options new_RendererMain)) =
          BootDone app"
  using assms
  by (simp add: fair_schedule_def boot_call_def main_call_def new_RendererMain_def Let_def
      set_phase_def resume_continuation_def resume_main_def resume_getApp_def resume_boot_def
      getApp_call_def reached_def call_registerPlugin_def plugins_of_def packages_of_def)

lemma fair_boot_app:
  assumes "f the_renderContext = Fulfils ro"
    "registerPlugin svc (PluginList (plugins_of options)) = Fulfils ()"
    "loadPackages svc (packages_of options) = Fulfils ()"
  shows "boot_at (run_tasks svc fair_schedule (boot_call f options new_RendererMain)) =
          BootDone (expected_app options ro)"
proof -
  obtain app where a: "boot_at (run_tasks svc fair_schedule (boot_call f options new_RendererMain)) =
          BootDone app"
    using fair_boot [of f ro svc options] assms by auto
  from boot_returns [OF a] assms(1) have "app = expected_app options ro" by auto
  with a show ?thesis by simp
qed

section \<open>The claims about the configuration store\<close>








text \<open>
  The function \<^verbatim>\<open>onGot\<close> returns also fails to remove the registration when the callback
  calls it while it is being notified: \<^verbatim>\<open>delWait\<close> removes the entry from the stored array,
  and \<^verbatim>\<open>notifyGot\<close>, when its loop is over, stores its own copy of the array, which still
  has the entry. The callback is registered as before.
\<close>

lemma unsubscribe_during_notification:
  "waits (snd (onGot ''k'' (Fn 1) empty_store)) ''k'' = Some [\<lparr>once = False, resolve = Fn 1\<rparr>] \<and>
   delWait ''k'' (Fn 1) (snd (onGot ''k'' (Fn 1) empty_store)) = Inr empty_store \<and>
   notifyGot_calling (unsubscribing ''k'' (Fn 1)) ''k'' (snd (onGot ''k'' (Fn 1) empty_store)) =
     Inr ((snd (onGot ''k'' (Fn 1) empty_store))\<lparr>calls := [(Fn 1, JUndefined)]\<rparr>)"
proof -
  let ?e = "\<lparr>once = False, resolve = Fn 1\<rparr>"
  let ?s1 = "empty_store\<lparr>waits := [''k'' \<mapsto> [?e]]\<rparr>"
  have 1: "snd (onGot ''k'' (Fn 1) empty_store) = ?s1"
    by (simp add: onGot_def Let_def setWait_def empty_store_def obj_read_empty
        Object_prototype_read_def Object_prototype_names_def)
  have g: "get ?s1 ''k'' JUndefined = JUndefined"
    by (simp add: get_def empty_store_def lodashGet_def castPath_def isKey_def obj_read_empty
        Object_prototype_read_def Object_prototype_names_def)
  have d: "delWait ''k'' (Fn 1) ?s1 = Inr empty_store"
    by (simp add: delWait_total empty_store_def)
  have n: "notifyGot_calling (unsubscribing ''k'' (Fn 1)) ''k'' ?s1 =
      Inr (?s1\<lparr>calls := [(Fn 1, JUndefined)]\<rparr>)"
    by (simp add: notifyGot_calling_def unsubscribing_def Let_def delWait_total get_def
        lodashGet_def castPath_def isKey_def obj_read_empty Object_prototype_read_def
        Object_prototype_names_def empty_store_def)
  show ?thesis unfolding 1 using d n by simp
qed



text \<open>
  Claim C4 as it is stated fails. \<^verbatim>\<open>notifyGot\<close> reverses a copy of the stored array and
  walks the copy from its last index down, which is the stored array from its first entry
  on. With
  \<open>Fn 1\<close> registered before \<open>Fn 2\<close>, \<open>Fn 1\<close> is called first: the calls are not made from
  the most recently registered waiter to the least recently registered one.
\<close>

theorem notifyGot_order_counterexample:
  "waiters (setWait ''k'' (Fn 1) False empty_store) ''k'' = [\<lparr>once = False, resolve = Fn 1\<rparr>] \<and>
   waiters two_waiters ''k'' =
     [\<lparr>once = False, resolve = Fn 1\<rparr>, \<lparr>once = False, resolve = Fn 2\<rparr>] \<and>
   notifyGot ''k'' two_waiters =
     Inr (two_waiters
           \<lparr>waits := (waits two_waiters)
              (''k'' \<mapsto> [\<lparr>once = False, resolve = Fn 2\<rparr>, \<lparr>once = False, resolve = Fn 1\<rparr>]),
            calls := [(Fn 1, JUndefined), (Fn 2, JUndefined)]\<rparr>)"
  apply (simp add: notifyGot_total two_waiters_waiters two_waiters_get persistent_def)
  apply (simp add: two_waiters_def setWait_waiters)
  apply (simp add: setWait_def empty_store_def waiters_def)
  done

text \<open>
  Claim C4, amended. \<^verbatim>\<open>notifyGot\<close> calls the waiters of the key in the order in which they
  are stored, the first stored first; \<^verbatim>\<open>setWait\<close> stores a new waiter last, so waiters
  registered since the last notification are called in the order of their registration.
  Afterwards the entries not marked once are stored for the key, in reversed order, or
  the key's entry is deleted when none remains.
\<close>

theorem notifyGot_stored_order:
  "\<exists>s'. notifyGot key s = Inr s' \<and>
        map fst (drop (length (calls s)) (calls s')) = map resolve (waiters s key) \<and>
        calls s' = calls s @ map (\<lambda>w. (resolve w, get s key JUndefined)) (waiters s key) \<and>
        waits s' key =
          (if filter (\<lambda>w. \<not> once w) (waiters s key) = [] then None
           else Some (rev (filter (\<lambda>w. \<not> once w) (waiters s key)))) \<and>
        waiters (setWait key c b s) key = waiters s key @ [\<lparr>once = b, resolve = c\<rparr>]"
  by (simp add: notifyGot_total persistent_def setWait_waiters comp_def)

theorem notifyGot_stored_order_witness:
  "\<exists>s'. notifyGot ''k'' two_waiters = Inr s' \<and>
        map fst (calls s') = [Fn 1, Fn 2] \<and>
        waits s' ''k'' =
          Some [\<lparr>once = False, resolve = Fn 2\<rparr>, \<lparr>once = False, resolve = Fn 1\<rparr>]"
  using notifyGot_stored_order [of "''k''" two_waiters "Fn 3" False]
  by (auto simp: two_waiters_waiters two_waiters_get two_waiters_calls)

text \<open>
  Claim C5. For every key and every list of waiters registered for it, one call of
  \<^verbatim>\<open>notifyGot\<close> returns normally, calls every registered entry exactly once (the calls
  added to the log are the entries of the list, one call each, each with the value
  \<^verbatim>\<open>get(key)\<close>), although the copy is spliced while the loop runs; afterwards the entries
  of the key are the entries that were not marked once, all of them, and no entry marked
  once. The other keys and the configuration are untouched.
\<close>

theorem notifyGot_each_once:
  "\<exists>s'. notifyGot key s = Inr s' \<and>
        calls s' = calls s @ map (\<lambda>w. (resolve w, get s key JUndefined)) (waiters s key) \<and>
        waiters s' key = rev (filter (\<lambda>w. \<not> once w) (waiters s key)) \<and>
        (\<forall>k. k \<noteq> key \<longrightarrow> waits s' k = waits s k) \<and>
        config s' = config s"
  by (simp add: notifyGot_total waiters_def persistent_def)

theorem notifyGot_each_once_witness:
  "\<exists>s'. notifyGot ''k'' two_waiters = Inr s' \<and>
        calls s' = [(Fn 1, JUndefined), (Fn 2, JUndefined)] \<and>
        waiters s' ''k'' =
          [\<lparr>once = False, resolve = Fn 2\<rparr>, \<lparr>once = False, resolve = Fn 1\<rparr>]"
  using notifyGot_each_once [of "''k''" two_waiters]
  by (auto simp: two_waiters_waiters two_waiters_get two_waiters_calls)

text \<open>
  Claim C9. \<^verbatim>\<open>setConfig\<close> of a value that is not a plain object returns the store as it
  was. For a plain object it is the run of \<^verbatim>\<open>set(key, obj[key])\<close> over the object's own
  keys in their order, each value the object's own; it returns normally, and the
  configuration afterwards is the configuration before with the assignment
  \<^verbatim>\<open>config[key] = obj[key]\<close> made, in that order, for exactly the keys whose \<^verbatim>\<open>set\<close> is accepted:
  a rejected key does not stop the others. When \<^verbatim>\<open>__proto__\<close> is not among the keys, every
  key of the object whose \<^verbatim>\<open>set\<close> is accepted then reads as the object's value while every
  other key reads as before.
\<close>

theorem setConfig_each_key:
  "(\<not> isPlainObject cfg \<longrightarrow> setConfig cfg s = Inr s) \<and>
   (isPlainObject cfg \<longrightarrow>
      setConfig cfg s =
        run (map (\<lambda>key. Set key (js_read cfg key)) (Object_keys (props_of cfg))) s \<and>
      (\<forall>key \<in> set (Object_keys (props_of cfg)).
         map_of (props_of cfg) key = Some (js_read cfg key)) \<and>
      (\<exists>s'. setConfig cfg s = Inr s' \<and>
            config s' =
              foldl (\<lambda>obj key. if accepted s key (js_read cfg key)
                                then obj_write obj key (js_read cfg key) else obj)
                (config s) (Object_keys (props_of cfg)) \<and>
            (''__proto__'' \<notin> set (Object_keys (props_of cfg)) \<longrightarrow>
               (\<forall>k. obj_read (config s') k =
                  (if k \<in> set (Object_keys (props_of cfg)) \<and> accepted s k (js_read cfg k)
                   then js_read cfg k else obj_read (config s) k)))))"
proof (intro conjI impI)
  show "setConfig cfg s = Inr s" if "\<not> isPlainObject cfg"
    using that by (simp add: setConfig_def)
next
  assume p: "isPlainObject cfg"
  then obtain ps where ps: "cfg = JObj ps" by (cases cfg) simp_all
  show "setConfig cfg s =
        run (map (\<lambda>key. Set key (js_read cfg key)) (Object_keys (props_of cfg))) s"
    using p by (simp add: setConfig_def forEach_set_run)
  show "\<forall>key \<in> set (Object_keys (props_of cfg)).
         map_of (props_of cfg) key = Some (js_read cfg key)"
  proof
    fix key assume "key \<in> set (Object_keys (props_of cfg))"
    then have "key \<in> fst ` set ps" by (simp add: ps Object_keys_def)
    then obtain w where "map_of ps key = Some w"
      by (cases "map_of ps key") (simp_all add: map_of_eq_None_iff)
    then show "map_of (props_of cfg) key = Some (js_read cfg key)"
      by (simp add: ps obj_read_def plain_object_def)
  qed
  obtain s' where s': "forEach_set cfg (Object_keys (props_of cfg)) s = Inr s'"
    "config s' =
       foldl (\<lambda>obj key. if accepted s key (js_read cfg key)
                         then obj_write obj key (js_read cfg key) else obj)
         (config s) (Object_keys (props_of cfg))"
    using forEach_set_config [of cfg "Object_keys (props_of cfg)" s] by blast
  have r: "\<forall>k. obj_read (config s') k =
                  (if k \<in> set (Object_keys (props_of cfg)) \<and> accepted s k (js_read cfg k)
                   then js_read cfg k else obj_read (config s) k)"
    if "''__proto__'' \<notin> set (Object_keys (props_of cfg))"
    unfolding s'(2)
    using obj_read_foldl_write [OF that, of "\<lambda>key. accepted s key (js_read cfg key)"
        "js_read cfg" "config s"]
    by simp
  show "\<exists>s'. setConfig cfg s = Inr s' \<and>
            config s' =
              foldl (\<lambda>obj key. if accepted s key (js_read cfg key)
                                then obj_write obj key (js_read cfg key) else obj)
                (config s) (Object_keys (props_of cfg)) \<and>
            (''__proto__'' \<notin> set (Object_keys (props_of cfg)) \<longrightarrow>
               (\<forall>k. obj_read (config s') k =
                  (if k \<in> set (Object_keys (props_of cfg)) \<and> accepted s k (js_read cfg k)
                   then js_read cfg k else obj_read (config s) k)))"
    using s' r p by (simp add: setConfig_def)
qed

theorem setConfig_each_key_witness:
  "\<not> isPlainObject (JNum 3) \<and> setConfig (JNum 3) strict_store = Inr strict_store \<and>
   isPlainObject (JObj [(''x'', JNum 1), (''y'', JNum 2)]) \<and>
   ''__proto__'' \<notin> set (Object_keys (props_of (JObj [(''x'', JNum 1), (''y'', JNum 2)]))) \<and>
   (\<exists>s'. setConfig (JObj [(''x'', JNum 1), (''y'', JNum 2)]) strict_store = Inr s' \<and>
         config s' = plain_object [(''y'', JNum 2)] \<and>
         obj_read (config s') ''x'' = JUndefined \<and> obj_read (config s') ''y'' = JNum 2 \<and>
         \<not> has s' ''x'' \<and> has s' ''y'')"
proof -
  let ?cfg = "JObj [(''x'', JNum 1), (''y'', JNum 2)]"
  have a: "\<not> accepted strict_store ''x'' v" "accepted strict_store ''y'' v" for v
    by (simp_all add: accepted_def)
  have r: "obj_read (plain_object []) ''x'' = JUndefined"
    by (simp add: obj_read_empty Object_prototype_read_def Object_prototype_names_def)
  have j: "obj_read (plain_object [(''x'', JNum 1), (''y'', JNum 2)]) ''y'' = JNum 2"
    by (simp add: obj_read_def plain_object_def)
  have n: "''__proto__'' \<notin> set (Object_keys (props_of ?cfg))"
    by (simp add: Object_keys_def)
  from setConfig_each_key [of "JNum 3" strict_store]
  have 1: "setConfig (JNum 3) strict_store = Inr strict_store" by simp
  have p: "isPlainObject ?cfg" by simp
  from setConfig_each_key [of ?cfg strict_store] p n
  obtain s' where s': "setConfig ?cfg strict_store = Inr s'"
    "config s' =
       foldl (\<lambda>obj key. if accepted strict_store key (js_read ?cfg key)
                         then obj_write obj key (js_read ?cfg key) else obj)
         (config strict_store) (Object_keys (props_of ?cfg))"
    "\<forall>k. obj_read (config s') k =
       (if k \<in> set (Object_keys (props_of ?cfg)) \<and> accepted strict_store k (js_read ?cfg k)
        then js_read ?cfg k else obj_read (config strict_store) k)"
    by blast
  have c: "config s' = plain_object [(''y'', JNum 2)]"
    unfolding s'(2) by (simp add: Object_keys_def a j obj_write_plain)
  have x: "obj_read (config s') ''x'' = JUndefined"
    using s'(3) [rule_format, of "''x''"] by (simp add: a r)
  have y: "obj_read (config s') ''y'' = JNum 2"
    using s'(3) [rule_format, of "''y''"] by (simp add: a j Object_keys_def)
  from 1 p n s'(1) c x y show ?thesis by (auto simp: has_def)
qed

text \<open>
  Claim C10. \<^verbatim>\<open>has\<close> tests the literal property only: it is false of every dotted key that
  is not a property of the configuration (\<^verbatim>\<open>key in config\<close> is false). \<^verbatim>\<open>get\<close> reads a key that is a
  property of the configuration, or that has neither a dot nor a bracket, as \<^verbatim>\<open>has\<close> does,
  and follows the dotted path otherwise. So for a key of two or more segments without
  dots and brackets that is not itself a property of the configuration, whose first
  segment is an own property of the configuration from where the other segments lead
  through own properties of plain objects to a value, \<^verbatim>\<open>get\<close> returns that value (the default
  value if it is \<^verbatim>\<open>undefined\<close>) while \<^verbatim>\<open>has\<close> is false. With the configuration \<^verbatim>\<open>{a: {b: 1}}\<close>,
  \<^verbatim>\<open>get("a.b")\<close> is 1 and \<^verbatim>\<open>has("a.b")\<close> is false.
\<close>

theorem has_literal_get_deep:
  "(CHR ''.'' \<in> set key \<and> \<not> obj_in key (config s) \<longrightarrow> \<not> has s key) \<and>
   (obj_in key (config s) \<or> plain_segment key \<longrightarrow>
      get s key JUndefined = obj_read (config s) key \<and>
      has s key = (get s key JUndefined \<noteq> JUndefined)) \<and>
   ((\<forall>x \<in> set (p # q # path). plain_segment x) \<and>
    \<not> obj_in (dotted (p # q # path)) (config s) \<and>
    map_of (own (config s)) p = Some w \<and> own_path w (q # path) = Some v \<longrightarrow>
      get s (dotted (p # q # path)) d = (if v = JUndefined then d else v) \<and>
      \<not> has s (dotted (p # q # path))) \<and>
   (plain_segment a \<and> plain_segment b \<and> \<not> obj_in (a @ ''.'' @ b) (config s) \<and>
    map_of (own (config s)) a = Some (JObj ps) \<and> map_of ps b = Some v \<and> v \<noteq> JUndefined \<longrightarrow>
      get s (a @ ''.'' @ b) d = v \<and> \<not> has s (a @ ''.'' @ b))"
proof (intro conjI impI)
  show "\<not> has s key" if "CHR ''.'' \<in> set key \<and> \<not> obj_in key (config s)"
    using that by (simp add: has_def obj_read_absent)
next
  assume "obj_in key (config s) \<or> plain_segment key"
  then have k: "isKey key (config s)" by (auto simp: isKey_def plain_segment_def)
  show "get s key JUndefined = obj_read (config s) key"
    by (simp add: get_def lodashGet_literal [OF k])
  then show "has s key = (get s key JUndefined \<noteq> JUndefined)" by (simp add: has_def)
next
  assume a: "(\<forall>x \<in> set (p # q # path). plain_segment x) \<and>
    \<not> obj_in (dotted (p # q # path)) (config s) \<and>
    map_of (own (config s)) p = Some w \<and> own_path w (q # path) = Some v"
  then have r: "obj_read (config s) p = w" by (simp add: obj_read_def)
  have b: "baseGet w (q # path) = v" using a by (intro baseGet_own_path) simp
  have f: "\<forall>x \<in> set (p # q # path). CHR ''.'' \<notin> set x"
    using a by (simp add: plain_segment_def)
  have n: "\<not> obj_in (dotted (p # q # path)) (config s)" using a by blast
  show "get s (dotted (p # q # path)) d = (if v = JUndefined then d else v)"
    unfolding get_def lodashGet_dotted [OF f n] r b by (rule refl)
  show "\<not> has s (dotted (p # q # path))"
    using n by (simp add: has_def obj_read_absent del: dotted.simps)
next
  assume a: "plain_segment a \<and> plain_segment b \<and> \<not> obj_in (a @ ''.'' @ b) (config s) \<and>
    map_of (own (config s)) a = Some (JObj ps) \<and> map_of ps b = Some v \<and> v \<noteq> JUndefined"
  then have r: "obj_read (config s) a = JObj ps" by (simp add: obj_read_def)
  have b: "baseGet (JObj ps) [b] = v"
    using a by (simp add: obj_read_def plain_object_def)
  have d: "dotted [a, b] = a @ ''.'' @ b" by simp
  have f: "\<forall>x \<in> set [a, b]. CHR ''.'' \<notin> set x"
    using a by (simp add: plain_segment_def)
  have n: "\<not> obj_in (dotted [a, b]) (config s)" using a unfolding d by blast
  have "lodashGet (config s) (dotted [a, b]) d =
      (if baseGet (obj_read (config s) a) [b] = JUndefined then d
       else baseGet (obj_read (config s) a) [b])"
    by (rule lodashGet_dotted [OF f n])
  then show "get s (a @ ''.'' @ b) d = v"
    unfolding get_def d r b using a by simp
  show "\<not> has s (a @ ''.'' @ b)"
    using a by (simp add: has_def obj_read_absent)
qed

theorem has_literal_get_deep_witness:
  "CHR ''.'' \<in> set ''a.b'' \<and> \<not> obj_in ''a.b'' (config nested_store) \<and>
   plain_segment ''a'' \<and> plain_segment ''b'' \<and>
   map_of (own (config nested_store)) ''a'' = Some (JObj [(''b'', JNum 1)]) \<and>
   map_of [(''b'', JNum 1)] ''b'' = Some (JNum 1) \<and>
   own_path (JObj [(''b'', JNum 1)]) [''b''] = Some (JNum 1) \<and>
   get nested_store ''a.b'' JUndefined = JNum 1 \<and>
   \<not> has nested_store ''a.b'' \<and>
   obj_in ''a'' (config nested_store) \<and>
   get nested_store ''a'' JUndefined = JObj [(''b'', JNum 1)] \<and>
   has nested_store ''a''"
proof -
  have c: "config nested_store = plain_object [(''a'', JObj [(''b'', JNum 1)])]"
    by (simp add: nested_store_def)
  have n: "\<not> obj_in ''a.b'' (config nested_store)"
    by (simp add: c obj_in_def plain_object_def chain_in_def Object_prototype_def
        Object_prototype_names_def)
  have s: "plain_segment ''a''" "plain_segment ''b''" by (simp_all add: plain_segment_def)
  have i: "obj_in ''a'' (config nested_store)"
    by (simp add: c obj_in_def plain_object_def)
  have m: "map_of (own (config nested_store)) ''a'' = Some (JObj [(''b'', JNum 1)])"
    by (simp add: c plain_object_def)
  have r: "obj_read (config nested_store) ''a'' = JObj [(''b'', JNum 1)]"
    by (simp add: obj_read_def m)
  have o: "own_path (JObj [(''b'', JNum 1)]) [''b''] = Some (JNum 1)" by simp
  note th = has_literal_get_deep [where s = nested_store and key = "''a''" and p = "''a''"
      and q = "''b''" and path = "[]" and w = "JObj [(''b'', JNum 1)]" and v = "JNum 1"
      and d = JUndefined and a = "''a''" and b = "''b''" and ps = "[(''b'', JNum 1)]"]
  from th n m s have 1: "get nested_store ''a.b'' JUndefined = JNum 1"
    by simp
  from has_literal_get_deep [where s = nested_store and key = "''a.b''" and p = "''a''"
      and q = "''b''" and path = "[]" and w = "JObj [(''b'', JNum 1)]" and v = "JNum 1"
      and d = JUndefined and a = "''a''" and b = "''b''" and ps = "[(''b'', JNum 1)]"] n
  have h1: "\<not> has nested_store ''a.b''"
    by simp
  from th i r have 2: "get nested_store ''a'' JUndefined = JObj [(''b'', JNum 1)]"
    "has nested_store ''a''"
    by simp_all
  from n s m o 1 h1 i 2 show ?thesis by simp
qed

section \<open>The claims about the bootstrapper\<close>

text \<open>
  Claim C6. The continuation the constructor registers cannot go on before the phase is
  OptionsResolved. Take the function \<^verbatim>\<open>createRenderer\<close> returns, called once on a fresh
  instance: right after its call \<^verbatim>\<open>main\<close> has set OptionsResolved, no render object is
  stored, and \<^verbatim>\<open>main\<close> cannot go on. Then resume the tasks in any order whatsoever. The
  trace is always a beginning of the one expected sequence: schema and code runtime
  initialised, phase OptionsResolved, adapter called with the render context (the schema,
  package, boosts, component tree and lifecycle services), adapter returned, phase Ready,
  initial plugins registered, registration done, packages loading, loading done, phase
  AfterInitPackageLoad. While the phase has not reached Ready no render object is stored
  and the trace has not gone beyond the adapter's call; once it has reached Ready, the
  adapter has fulfilled, its result is the render object stored, and the trace begins
  with the sequence up to the phase Ready. Whenever \<^verbatim>\<open>main\<close> has finished, the trace is the
  whole sequence, so \<^verbatim>\<open>registerPlugin\<close> came after the adapter's return and before
  \<^verbatim>\<open>loadPackages\<close>. And when the three awaited calls fulfil, \<^verbatim>\<open>main\<close> does finish.
\<close>

theorem bootstrap_order:
  "step svc Continuation new_RendererMain = None \<and>
   phase (boot_call f options new_RendererMain) = OptionsResolved \<and>
   renderObject (boot_call f options new_RendererMain) = None \<and>
   step svc Main (boot_call f options new_RendererMain) = None \<and>
   the_renderContext =
     [(''schema'', SchemaService), (''packageManager'', PackageManagementService),
      (''boostsManager'', BoostsService), (''componentTreeModel'', ComponentTreeModelService),
      (''lifeCycle'', LifeCycleService)] \<and>
   prefix (trace (run_tasks svc sched (boot_call f options new_RendererMain)))
     (expected_trace svc options f) \<and>
   (\<not> reached (phase (run_tasks svc sched (boot_call f options new_RendererMain))) Ready \<longrightarrow>
      renderObject (run_tasks svc sched (boot_call f options new_RendererMain)) = None \<and>
      prefix (trace (run_tasks svc sched (boot_call f options new_RendererMain)))
        [SchemaInitialize (opt_schema options),
         CodeRuntimeInitialize (codeRuntime_of options),
         PhaseSet OptionsResolved, AdapterCall the_renderContext]) \<and>
   (reached (phase (run_tasks svc sched (boot_call f options new_RendererMain))) Ready \<longrightarrow>
      (\<exists>ro. f the_renderContext = Fulfils ro \<and>
            renderObject (run_tasks svc sched (boot_call f options new_RendererMain)) =
              Some ro \<and>
            prefix
              [SchemaInitialize (opt_schema options),
               CodeRuntimeInitialize (codeRuntime_of options),
               PhaseSet OptionsResolved, AdapterCall the_renderContext, AdapterReturn ro,
               PhaseSet Ready]
              (trace (run_tasks svc sched (boot_call f options new_RendererMain))))) \<and>
   (main_at (run_tasks svc sched (boot_call f options new_RendererMain)) = MainDone \<longrightarrow>
      (\<exists>ro. f [(''schema'', SchemaService), (''packageManager'', PackageManagementService),
               (''boostsManager'', BoostsService),
               (''componentTreeModel'', ComponentTreeModelService),
               (''lifeCycle'', LifeCycleService)] = Fulfils ro \<and>
            renderObject (run_tasks svc sched (boot_call f options new_RendererMain)) =
              Some ro \<and>
            phase (run_tasks svc sched (boot_call f options new_RendererMain)) =
              AfterInitPackageLoad \<and>
            trace (run_tasks svc sched (boot_call f options new_RendererMain)) =
              [SchemaInitialize (opt_schema options),
               CodeRuntimeInitialize (codeRuntime_of options),
               PhaseSet OptionsResolved,
               AdapterCall
                 [(''schema'', SchemaService), (''packageManager'', PackageManagementService),
                  (''boostsManager'', BoostsService),
                  (''componentTreeModel'', ComponentTreeModelService),
                  (''lifeCycle'', LifeCycleService)],
               AdapterReturn ro,
               PhaseSet Ready, RegisterPlugin (PluginList (plugins_of options)),
               RegisterPluginDone, LoadPackages (packages_of options), LoadPackagesDone,
               PhaseSet AfterInitPackageLoad])) \<and>
   (f the_renderContext = Fulfils ro \<and>
    registerPlugin svc (PluginList (plugins_of options)) = Fulfils () \<and>
    loadPackages svc (packages_of options) = Fulfils () \<longrightarrow>
      main_at (run_tasks svc [Continuation, Continuation, Main, Main, Main]
                (boot_call f options new_RendererMain)) = MainDone)"
proof (intro conjI impI)
  let ?s = "run_tasks svc sched (boot_call f options new_RendererMain)"
  have inv: "bootstrap_inv svc options f ?s"
    by (rule run_tasks_inv [OF boot_call_inv])
  show "step svc Continuation new_RendererMain = None"
    by (simp add: resume_continuation_def new_RendererMain_def reached_def)
  show "phase (boot_call f options new_RendererMain) = OptionsResolved"
    by (simp add: boot_call_def main_call_def Let_def set_phase_def)
  show "renderObject (boot_call f options new_RendererMain) = None"
    by (simp add: boot_call_def main_call_def Let_def set_phase_def new_RendererMain_def)
  show "step svc Main (boot_call f options new_RendererMain) = None"
    by (simp add: boot_call_def main_call_def Let_def set_phase_def resume_main_def
        reached_def)
  show "the_renderContext =
     [(''schema'', SchemaService), (''packageManager'', PackageManagementService),
      (''boostsManager'', BoostsService), (''componentTreeModel'', ComponentTreeModelService),
      (''lifeCycle'', LifeCycleService)]"
    by (simp add: the_renderContext_def)
  show "prefix (trace ?s) (expected_trace svc options f)"
    by (rule inv_prefix [OF inv])
  {
    assume n: "\<not> reached (phase ?s) Ready"
    from inv_not_ready [OF inv n]
    show "renderObject ?s = None"
      and "prefix (trace ?s)
        [SchemaInitialize (opt_schema options),
         CodeRuntimeInitialize (codeRuntime_of options),
         PhaseSet OptionsResolved, AdapterCall the_renderContext]"
      unfolding trace_called_events by blast+
  }
  {
    assume r: "reached (phase ?s) Ready"
    from inv_ready [OF inv r]
    show "\<exists>ro. f the_renderContext = Fulfils ro \<and> renderObject ?s = Some ro \<and>
            prefix
              [SchemaInitialize (opt_schema options),
               CodeRuntimeInitialize (codeRuntime_of options),
               PhaseSet OptionsResolved, AdapterCall the_renderContext, AdapterReturn ro,
               PhaseSet Ready]
              (trace ?s)"
      unfolding trace_ready_events .
  }
  {
    assume "main_at ?s = MainDone"
    from inv_done [OF inv this]
    show "\<exists>ro. f [(''schema'', SchemaService), (''packageManager'', PackageManagementService),
               (''boostsManager'', BoostsService),
               (''componentTreeModel'', ComponentTreeModelService),
               (''lifeCycle'', LifeCycleService)] = Fulfils ro \<and>
            renderObject ?s = Some ro \<and>
            phase ?s = AfterInitPackageLoad \<and>
            trace ?s =
              [SchemaInitialize (opt_schema options),
               CodeRuntimeInitialize (codeRuntime_of options),
               PhaseSet OptionsResolved,
               AdapterCall
                 [(''schema'', SchemaService), (''packageManager'', PackageManagementService),
                  (''boostsManager'', BoostsService),
                  (''componentTreeModel'', ComponentTreeModelService),
                  (''lifeCycle'', LifeCycleService)],
               AdapterReturn ro,
               PhaseSet Ready, RegisterPlugin (PluginList (plugins_of options)),
               RegisterPluginDone, LoadPackages (packages_of options), LoadPackagesDone,
               PhaseSet AfterInitPackageLoad]"
      unfolding trace_loaded_events the_renderContext_def .
  }
  {
    assume "f the_renderContext = Fulfils ro \<and>
      registerPlugin svc (PluginList (plugins_of options)) = Fulfils () \<and>
      loadPackages svc (packages_of options) = Fulfils ()"
    then show "main_at (run_tasks svc [Continuation, Continuation, Main, Main, Main]
                (boot_call f options new_RendererMain)) = MainDone"
      by (blast intro: run_fair)
  }
qed

theorem bootstrap_order_witness:
  "\<not> reached (phase (run_tasks example_services []
                      (boot_call example_adapter example_options new_RendererMain))) Ready \<and>
   renderObject (run_tasks example_services []
                  (boot_call example_adapter example_options new_RendererMain)) = None \<and>
   example_adapter the_renderContext = Fulfils [(''foo'', JNum 1)] \<and>
   registerPlugin example_services (PluginList (plugins_of example_options)) = Fulfils () \<and>
   loadPackages example_services (packages_of example_options) = Fulfils () \<and>
   main_at (run_tasks example_services [Continuation, Continuation, Main, Main, Main]
             (boot_call example_adapter example_options new_RendererMain)) = MainDone \<and>
   reached (phase (run_tasks example_services [Continuation, Continuation, Main, Main, Main]
                    (boot_call example_adapter example_options new_RendererMain))) Ready \<and>
   renderObject (run_tasks example_services [Continuation, Continuation, Main, Main, Main]
                  (boot_call example_adapter example_options new_RendererMain)) =
     Some [(''foo'', JNum 1)] \<and>
   trace (run_tasks example_services [Continuation, Continuation, Main, Main, Main]
           (boot_call example_adapter example_options new_RendererMain)) =
     [SchemaInitialize (JObj [(''version'', JStr ''1.0.0'')]), CodeRuntimeInitialize (JObj []),
      PhaseSet OptionsResolved,
      AdapterCall
        [(''schema'', SchemaService), (''packageManager'', PackageManagementService),
         (''boostsManager'', BoostsService),
         (''componentTreeModel'', ComponentTreeModelService),
         (''lifeCycle'', LifeCycleService)],
      AdapterReturn [(''foo'', JNum 1)], PhaseSet Ready,
      RegisterPlugin (PluginList [JStr ''pluginA'']), RegisterPluginDone, LoadPackages [],
      LoadPackagesDone, PhaseSet AfterInitPackageLoad]"
proof -
  let ?b = "boot_call example_adapter example_options new_RendererMain"
  let ?s = "run_tasks example_services [Continuation, Continuation, Main, Main, Main] ?b"
  have a: "example_adapter the_renderContext = Fulfils [(''foo'', JNum 1)]"
    by (simp add: example_adapter_def)
  have a': "example_adapter ctx = Fulfils [(''foo'', JNum 1)]" for ctx
    by (simp add: example_adapter_def)
  have r: "registerPlugin example_services (PluginList (plugins_of example_options)) = Fulfils ()"
    by (simp add: example_services_def)
  have l: "loadPackages example_services (packages_of example_options) = Fulfils ()"
    by (simp add: example_services_def)
  note th0 = bootstrap_order [of example_services example_adapter example_options "[]"
      "[(''foo'', JNum 1)]"]
  have e: "run_tasks example_services [] ?b = ?b" by simp
  have p0: "phase ?b = OptionsResolved"
    by (rule th0 [THEN conjunct2, THEN conjunct1])
  then have n: "\<not> reached (phase (run_tasks example_services [] ?b)) Ready"
    unfolding e by (simp add: reached_def)
  note c6 = th0 [THEN conjunct2, THEN conjunct2, THEN conjunct2, THEN conjunct2,
      THEN conjunct2, THEN conjunct2, THEN conjunct1]
  have o: "renderObject (run_tasks example_services [] ?b) = None"
    using c6 n by (rule mp [THEN conjunct1])
  note th = bootstrap_order [of example_services example_adapter example_options
      "[Continuation, Continuation, Main, Main, Main]" "[(''foo'', JNum 1)]"]
  note c8 = th [THEN conjunct2, THEN conjunct2, THEN conjunct2, THEN conjunct2,
      THEN conjunct2, THEN conjunct2, THEN conjunct2, THEN conjunct2]
  have d: "main_at ?s = MainDone"
    using c8 [THEN conjunct2] a r l by blast
  from c8 [THEN conjunct1] d obtain ro where ro:
    "example_adapter [(''schema'', SchemaService), (''packageManager'', PackageManagementService),
               (''boostsManager'', BoostsService),
               (''componentTreeModel'', ComponentTreeModelService),
               (''lifeCycle'', LifeCycleService)] = Fulfils ro"
    "renderObject ?s = Some ro" "phase ?s = AfterInitPackageLoad"
    "trace ?s =
     [SchemaInitialize (opt_schema example_options),
      CodeRuntimeInitialize (codeRuntime_of example_options),
      PhaseSet OptionsResolved,
      AdapterCall
        [(''schema'', SchemaService), (''packageManager'', PackageManagementService),
         (''boostsManager'', BoostsService),
         (''componentTreeModel'', ComponentTreeModelService),
         (''lifeCycle'', LifeCycleService)],
      AdapterReturn ro, PhaseSet Ready,
      RegisterPlugin (PluginList (plugins_of example_options)), RegisterPluginDone,
      LoadPackages (packages_of example_options),
      LoadPackagesDone, PhaseSet AfterInitPackageLoad]"
    by blast
  have roe: "ro = [(''foo'', JNum 1)]" using ro(1) by (simp add: a')
  have rd: "reached (phase ?s) Ready" unfolding ro(3) by (simp add: reached_def)
  have ob: "renderObject ?s = Some [(''foo'', JNum 1)]" using ro(2) roe by simp
  have tr: "trace ?s =
     [SchemaInitialize (JObj [(''version'', JStr ''1.0.0'')]), CodeRuntimeInitialize (JObj []),
      PhaseSet OptionsResolved,
      AdapterCall
        [(''schema'', SchemaService), (''packageManager'', PackageManagementService),
         (''boostsManager'', BoostsService),
         (''componentTreeModel'', ComponentTreeModelService),
         (''lifeCycle'', LifeCycleService)],
      AdapterReturn [(''foo'', JNum 1)], PhaseSet Ready,
      RegisterPlugin (PluginList [JStr ''pluginA'']), RegisterPluginDone, LoadPackages [],
      LoadPackagesDone, PhaseSet AfterInitPackageLoad]"
    unfolding ro(4) roe
    by (simp add: example_options_def codeRuntime_of_def plugins_of_def packages_of_def)
  show ?thesis
    using n o a r l d rd ob tr by (intro conjI)
qed

text \<open>
  Claim C7 as it is stated fails. The render object is spread after \<^verbatim>\<open>mode\<close>, \<^verbatim>\<open>schema\<close> and \<^verbatim>\<open>packageManager\<close> and before
  \<^verbatim>\<open>use\<close>. With options that give no mode and an adapter that returns
  \<^verbatim>\<open>{mode: 'custom', use: 1}\<close>, the application has \<^verbatim>\<open>mode: 'custom'\<close>, not \<^verbatim>\<open>'production'\<close>,
  and its \<^verbatim>\<open>use\<close> is the closure, not the adapter's field.
\<close>

theorem getApp_overridden_counterexample:
  "opt_mode example_options = JUndefined \<and>
   overriding_adapter the_renderContext = Fulfils [(''mode'', JStr ''custom''), (''use'', JNum 1)] \<and>
   boot_at (run_tasks example_services fair_schedule
             (boot_call overriding_adapter example_options new_RendererMain)) =
     BootDone (expected_app example_options [(''mode'', JStr ''custom''), (''use'', JNum 1)]) \<and>
   app_read (expected_app example_options [(''mode'', JStr ''custom''), (''use'', JNum 1)]) ''mode'' =
     Some (Plain (JStr ''custom'')) \<and>
   app_read (expected_app example_options [(''mode'', JStr ''custom''), (''use'', JNum 1)]) ''mode'' \<noteq>
     Some (Plain (JStr ''production'')) \<and>
   app_read (expected_app example_options [(''mode'', JStr ''custom''), (''use'', JNum 1)]) ''use'' =
     Some UseClosure \<and>
   app_read (expected_app example_options [(''mode'', JStr ''custom''), (''use'', JNum 1)]) ''use'' \<noteq>
     Some (Plain (JNum 1))"
proof -
  have a: "overriding_adapter the_renderContext = Fulfils [(''mode'', JStr ''custom''), (''use'', JNum 1)]"
    by (simp add: overriding_adapter_def)
  have b: "boot_at (run_tasks example_services fair_schedule
             (boot_call overriding_adapter example_options new_RendererMain)) =
     BootDone (expected_app example_options [(''mode'', JStr ''custom''), (''use'', JNum 1)])"
    by (rule fair_boot_app [of overriding_adapter _ example_services example_options])
       (simp_all add: a example_services_def)
  show ?thesis
    using a b by (simp add: app_read_expected_app example_options_def)
qed

text \<open>
  Claim C7, amended. \<^verbatim>\<open>getApp\<close> cannot go on while the phase has not reached
  AfterInitPackageLoad, and once it has, it returns the object it builds. Along every
  schedule, what the function returned by \<^verbatim>\<open>createRenderer\<close> returns is the expected
  application of the options and of the render object the adapter returned, and it does
  return when the awaited calls fulfil. That object is frozen: an assignment to it gives
  the same object in sloppy code and throws in strict code. Its \<^verbatim>\<open>use\<close> is always the closure,
  which calls \<^verbatim>\<open>registerPlugin\<close> with the one plugin. Every field of the render object other
  than \<^verbatim>\<open>use\<close> is a field of it. Its \<^verbatim>\<open>mode\<close> (the option, \<^verbatim>\<open>'production'\<close> when the option is
  left out), \<^verbatim>\<open>schema\<close> and \<^verbatim>\<open>packageManager\<close> are the bootstrapper's unless the render object
  has a field of that name.
\<close>

theorem getApp_application:
  "(\<not> reached (phase s) AfterInitPackageLoad \<longrightarrow> step svc GetApp (getApp_call s) = None) \<and>
   (reached (phase s) AfterInitPackageLoad \<longrightarrow>
      step svc GetApp (getApp_call s) = Some (s\<lparr>getApp_at := GetAppDone (build_app s)\<rparr>)) \<and>
   (boot_at (run_tasks svc sched (boot_call f options new_RendererMain)) = BootDone app \<longrightarrow>
      (\<exists>ro. f the_renderContext = Fulfils ro \<and> app = expected_app options ro)) \<and>
   (f the_renderContext = Fulfils ro \<and>
    registerPlugin svc (PluginList (plugins_of options)) = Fulfils () \<and>
    loadPackages svc (packages_of options) = Fulfils () \<longrightarrow>
      boot_at (run_tasks svc fair_schedule (boot_call f options new_RendererMain)) =
        BootDone (expected_app options ro)) \<and>
   frozen (expected_app options ro) \<and>
   assign False (expected_app options ro) key v' = Inr (expected_app options ro) \<and>
   assign True (expected_app options ro) key v' = Inl TypeError \<and>
   mode_of options = (if truthy (opt_mode options) then opt_mode options else JStr ''production'') \<and>
   app_read (expected_app options ro) ''use'' = Some UseClosure \<and>
   use svc plugin s = (registerPlugin svc (Plugin plugin),
                       s\<lparr>trace := trace s @ [RegisterPlugin (Plugin plugin)]\<rparr>) \<and>
   (distinct (map fst ro) \<and> key \<noteq> ''use'' \<and> map_of ro key = Some v \<longrightarrow>
      app_read (expected_app options ro) key = Some (Plain v)) \<and>
   (''mode'' \<notin> fst ` set ro \<longrightarrow>
      app_read (expected_app options ro) ''mode'' = Some (Plain (mode_of options))) \<and>
   (''schema'' \<notin> fst ` set ro \<longrightarrow>
      app_read (expected_app options ro) ''schema'' = Some (Handle SchemaService)) \<and>
   (''packageManager'' \<notin> fst ` set ro \<longrightarrow>
      app_read (expected_app options ro) ''packageManager'' =
        Some (Handle PackageManagementService))"
proof (intro conjI impI)
  show "step svc GetApp (getApp_call s) = None" if "\<not> reached (phase s) AfterInitPackageLoad"
    using that by (simp add: resume_getApp_def getApp_call_def)
  show "step svc GetApp (getApp_call s) = Some (s\<lparr>getApp_at := GetAppDone (build_app s)\<rparr>)"
    if "reached (phase s) AfterInitPackageLoad"
    using that by (simp add: resume_getApp_def getApp_call_def build_app_def)
  show "\<exists>ro. f the_renderContext = Fulfils ro \<and> app = expected_app options ro"
    if "boot_at (run_tasks svc sched (boot_call f options new_RendererMain)) = BootDone app"
    using that by (rule boot_returns)
  show "boot_at (run_tasks svc fair_schedule (boot_call f options new_RendererMain)) =
        BootDone (expected_app options ro)"
    if "f the_renderContext = Fulfils ro \<and>
      registerPlugin svc (PluginList (plugins_of options)) = Fulfils () \<and>
      loadPackages svc (packages_of options) = Fulfils ()"
    using that by (intro fair_boot_app) simp_all
  show "frozen (expected_app options ro)"
    by (simp add: expected_app_def Object_freeze_def)
  then show "assign False (expected_app options ro) key v' = Inr (expected_app options ro)"
    and "assign True (expected_app options ro) key v' = Inl TypeError"
    by (simp_all add: assign_def)
  show "mode_of options = (if truthy (opt_mode options) then opt_mode options else JStr ''production'')"
    by (simp add: mode_of_def)
  show "app_read (expected_app options ro) ''use'' = Some UseClosure"
    by (simp add: app_read_expected_app)
  show "use svc plugin s = (registerPlugin svc (Plugin plugin),
                       s\<lparr>trace := trace s @ [RegisterPlugin (Plugin plugin)]\<rparr>)"
    by (simp add: use_def call_registerPlugin_def)
  show "app_read (expected_app options ro) key = Some (Plain v)"
    if "distinct (map fst ro) \<and> key \<noteq> ''use'' \<and> map_of ro key = Some v"
    using that by (simp add: app_read_render_field)
  show "app_read (expected_app options ro) ''mode'' = Some (Plain (mode_of options))"
    if "''mode'' \<notin> fst ` set ro"
    using app_read_own_field [OF that] by simp
  show "app_read (expected_app options ro) ''schema'' = Some (Handle SchemaService)"
    if "''schema'' \<notin> fst ` set ro"
    using app_read_own_field [OF that] by simp
  show "app_read (expected_app options ro) ''packageManager'' =
        Some (Handle PackageManagementService)"
    if "''packageManager'' \<notin> fst ` set ro"
    using app_read_own_field [OF that] by simp
qed

theorem getApp_application_witness:
  "\<not> reached (phase new_RendererMain) AfterInitPackageLoad \<and>
   step example_services GetApp (getApp_call new_RendererMain) = None \<and>
   example_adapter the_renderContext = Fulfils [(''foo'', JNum 1)] \<and>
   registerPlugin example_services (PluginList (plugins_of example_options)) = Fulfils () \<and>
   loadPackages example_services (packages_of example_options) = Fulfils () \<and>
   boot_at (run_tasks example_services fair_schedule
             (boot_call example_adapter example_options new_RendererMain)) =
     BootDone (expected_app example_options [(''foo'', JNum 1)]) \<and>
   expected_app example_options [(''foo'', JNum 1)] =
     \<lparr>properties =
        [(''__options'', InitOptions (Some example_options)),
         (''mode'', Plain (JStr ''production'')),
         (''schema'', Handle SchemaService),
         (''packageManager'', Handle PackageManagementService),
         (''foo'', Plain (JNum 1)),
         (''use'', UseClosure)],
      frozen = True\<rparr> \<and>
   app_read (expected_app example_options [(''foo'', JNum 1)]) ''foo'' = Some (Plain (JNum 1)) \<and>
   app_read (expected_app example_options [(''foo'', JNum 1)]) ''mode'' =
     Some (Plain (JStr ''production'')) \<and>
   app_read (expected_app example_options [(''foo'', JNum 1)]) ''use'' = Some UseClosure \<and>
   assign False (expected_app example_options [(''foo'', JNum 1)]) ''foo'' (Plain (JNum 2)) =
     Inr (expected_app example_options [(''foo'', JNum 1)]) \<and>
   assign True (expected_app example_options [(''foo'', JNum 1)]) ''foo'' (Plain (JNum 2)) =
     Inl TypeError"
proof -
  have n: "\<not> reached (phase new_RendererMain) AfterInitPackageLoad"
    by (simp add: reached_def new_RendererMain_def)
  have a: "example_adapter the_renderContext = Fulfils [(''foo'', JNum 1)]"
    by (simp add: example_adapter_def)
  have r: "registerPlugin example_services (PluginList (plugins_of example_options)) = Fulfils ()"
    by (simp add: example_services_def)
  have l: "loadPackages example_services (packages_of example_options) = Fulfils ()"
    by (simp add: example_services_def)
  have m: "mode_of example_options = JStr ''production''"
    by (simp add: mode_of_def example_options_def)
  have e: "expected_app example_options [(''foo'', JNum 1)] =
     \<lparr>properties =
        [(''__options'', InitOptions (Some example_options)),
         (''mode'', Plain (JStr ''production'')),
         (''schema'', Handle SchemaService),
         (''packageManager'', Handle PackageManagementService),
         (''foo'', Plain (JNum 1)),
         (''use'', UseClosure)],
      frozen = True\<rparr>"
    by (simp add: expected_app_def object_literal_def Object_freeze_def m)
  note th = getApp_application [where s = new_RendererMain and svc = example_services
      and sched = fair_schedule and f = example_adapter and options = example_options
      and ro = "[(''foo'', JNum 1)]" and key = "''foo''" and v = "JNum 1"
      and v' = "Plain (JNum 2)"]
  from th n have 1: "step example_services GetApp (getApp_call new_RendererMain) = None"
    by blast
  from th a r l have 2: "boot_at (run_tasks example_services fair_schedule
             (boot_call example_adapter example_options new_RendererMain)) =
     BootDone (expected_app example_options [(''foo'', JNum 1)])"
    by blast
  from th have 3:
    "app_read (expected_app example_options [(''foo'', JNum 1)]) ''foo'' = Some (Plain (JNum 1))"
    "app_read (expected_app example_options [(''foo'', JNum 1)]) ''mode'' =
       Some (Plain (JStr ''production''))"
    "app_read (expected_app example_options [(''foo'', JNum 1)]) ''use'' = Some UseClosure"
    "assign False (expected_app example_options [(''foo'', JNum 1)]) ''foo'' (Plain (JNum 2)) =
       Inr (expected_app example_options [(''foo'', JNum 1)])"
    "assign True (expected_app example_options [(''foo'', JNum 1)]) ''foo'' (Plain (JNum 2)) =
       Inl TypeError"
    by (simp_all add: m)
  from n 1 a r l 2 e 3 show ?thesis by simp
qed

section \<open>The claim about construction\<close>

text \<open>
  Claim C8 as it is stated fails. The constructor of the store checks the validator only
  when it is truthy (\<^verbatim>\<open>if (setterValidator)\<close>): with the number 0 supplied as validator,
  which is not a function, nothing is thrown and the store is built with the default
  validator.
\<close>

theorem construction_unchecked_counterexample:
  "typeof_function (NotFunction (JNum 0) :: (string \<Rightarrow> jsval \<Rightarrow> jsval) supplied) = False \<and>
   new_Configuration (Some [])
     (Some \<lparr>opt_strictMode = JUndefined, opt_setterValidator = NotFunction (JNum 0)\<rparr>) =
     Inr empty_store"
  by (simp add: new_Configuration_def invariant_def empty_store_def Let_def)

text \<open>
  Claim C8, amended. \<^verbatim>\<open>createRenderer\<close> with an adapter that is not a function fails with the
  precondition's error and returns no function, whatever the value; with a function it
  returns. The constructor of the store fails in the same way on a missing config,
  whatever the options, and on a supplied validator that is truthy and not a function. A
  supplied validator that is falsy and not a function is passed over: the store is built
  on the config object with the default validator. A function is taken as the validator.
\<close>

theorem construction_preconditions:
  "createRenderer (NotFunction v) =
     Inl (InvariantViolation ''The first parameter must be a function.'') \<and>
   createRenderer (Function f) = Inr (new_RendererMain, f) \<and>
   new_Configuration None options = Inl (InvariantViolation ''config must exist'') \<and>
   (truthy v \<longrightarrow>
      new_Configuration (Some cfg)
        (Some \<lparr>opt_strictMode = m, opt_setterValidator = NotFunction v\<rparr>) =
        Inl (InvariantViolation ''setterValidator must be a function'')) \<and>
   (\<not> truthy v \<longrightarrow>
      new_Configuration (Some cfg)
        (Some \<lparr>opt_strictMode = m, opt_setterValidator = NotFunction v\<rparr>) =
        Inr \<lparr>strictMode = (m \<noteq> JBool False), setterValidator = (\<lambda>key v. JBool True),
             config = plain_object cfg, waits = Map.empty, calls = [], promises = [], warnings = []\<rparr>) \<and>
   new_Configuration (Some cfg)
     (Some \<lparr>opt_strictMode = m, opt_setterValidator = Function g\<rparr>) =
     Inr \<lparr>strictMode = (m \<noteq> JBool False), setterValidator = g,
          config = plain_object cfg, waits = Map.empty, calls = [], promises = [], warnings = []\<rparr>"
  by (simp add: createRenderer_def new_Configuration_def invariant_def Let_def)

theorem construction_preconditions_witness:
  "createRenderer (NotFunction (JStr ''adapter'')) =
     Inl (InvariantViolation ''The first parameter must be a function.'') \<and>
   new_Configuration None None = Inl (InvariantViolation ''config must exist'') \<and>
   truthy (JNum 5) \<and>
   new_Configuration (Some [])
     (Some \<lparr>opt_strictMode = JUndefined, opt_setterValidator = NotFunction (JNum 5)\<rparr>) =
     Inl (InvariantViolation ''setterValidator must be a function'') \<and>
   \<not> truthy JNull \<and>
   new_Configuration (Some [])
     (Some \<lparr>opt_strictMode = JUndefined, opt_setterValidator = NotFunction JNull\<rparr>) =
     Inr empty_store"
  using construction_preconditions [of "JStr ''adapter''" example_adapter None "[]" JUndefined]
    construction_preconditions [of "JNum 5" example_adapter None "[]" JUndefined]
    construction_preconditions [of JNull example_adapter None "[]" JUndefined]
  by (simp add: empty_store_def)


end
